theory Spec2Isabelle
  imports Complex_Main "HOL-Library.Sublist"
begin

section \<open>The platform URL class\<close>

text \<open>
  The library files \<open>url.ts\<close>, \<open>robots.ts\<close> and \<open>crawl.ts\<close> go through the platform
  class \<open>URL\<close> (\<open>new URL(s)\<close>, its getters, \<open>searchParams.delete\<close>, \<open>toString\<close>).
  The class is not code of the repository. A parsed URL is a record of the components
  the repository reads; the constructor is a parameter \<open>parseURL\<close> of every function
  that calls it (\<open>None\<close> where the constructor throws its \<open>TypeError\<close>) and the
  serialiser is a parameter \<open>toString\<close>. \<open>host\<close> includes the port, as the getter does.
  \<open>searchParams\<close> is the list of decoded name-value pairs in query order.
\<close>

record URL =
  protocol :: string
  host :: string
  pathname :: string
  searchParams :: "(string \<times> string) list"
  hash :: string

type_synonym url_parser = "string \<Rightarrow> URL option"
type_synonym url_serializer = "URL \<Rightarrow> string"

datatype error = TypeError | EmptyUrl

text \<open>\<open>URLSearchParams.delete(name)\<close> removes every pair with that name.\<close>

definition searchParams_delete :: "string \<Rightarrow> URL \<Rightarrow> URL" where
  "searchParams_delete k u =
     u\<lparr>searchParams := filter (\<lambda>kv. fst kv \<noteq> k) (searchParams u)\<rparr>"

subsection \<open>A concrete parser for plain http(s) URLs\<close>

text \<open>
  \<open>plainParseURL\<close> and \<open>plainToString\<close> behave as the platform class does on
  \<open>http://\<close> and \<open>https://\<close> strings whose host, path and query are made of letters,
  digits and \<open>- . _\<close> only, besides the separators (no escapes, no \<open>~\<close>, no
  credentials, no port, no dot segments, lower-case host, no empty fragment). They
  give the parameters a value on concrete inputs; no general theorem depends on them.
\<close>

fun splitOn :: "char \<Rightarrow> string \<Rightarrow> string list" where
  "splitOn c [] = [[]]"
| "splitOn c (x # xs) =
     (if x = c then [] # splitOn c xs
      else (case splitOn c xs of [] \<Rightarrow> [[x]] | w # ws \<Rightarrow> (x # w) # ws))"

definition pairOf :: "string \<Rightarrow> string \<times> string" where
  "pairOf w = (takeWhile (\<lambda>c. c \<noteq> CHR ''='') w, drop 1 (dropWhile (\<lambda>c. c \<noteq> CHR ''='') w))"

definition plainParseAfter :: "string \<Rightarrow> string \<Rightarrow> URL option" where
  "plainParseAfter proto rest =
     (let noHash = takeWhile (\<lambda>c. c \<noteq> CHR ''#'') rest;
          hashPart = dropWhile (\<lambda>c. c \<noteq> CHR ''#'') rest;
          beforeQ = takeWhile (\<lambda>c. c \<noteq> CHR ''?'') noHash;
          q = drop 1 (dropWhile (\<lambda>c. c \<noteq> CHR ''?'') noHash);
          h = takeWhile (\<lambda>c. c \<noteq> CHR ''/'') beforeQ;
          p = dropWhile (\<lambda>c. c \<noteq> CHR ''/'') beforeQ
      in if h = [] then None
         else Some \<lparr>protocol = proto, host = h,
                    pathname = (if p = [] then ''/'' else p),
                    searchParams = map pairOf (filter (\<lambda>w. w \<noteq> []) (splitOn (CHR ''&'') q)),
                    hash = (if hashPart = ''#'' then [] else hashPart)\<rparr>)"

definition plainParseURL :: url_parser where
  "plainParseURL s =
     (if prefix ''https://'' s then plainParseAfter ''https:'' (drop 8 s)
      else if prefix ''http://'' s then plainParseAfter ''http:'' (drop 7 s)
      else None)"

fun join :: "string \<Rightarrow> string list \<Rightarrow> string" where
  "join sep [] = []"
| "join sep [x] = x"
| "join sep (x # y # ys) = x @ sep @ join sep (y # ys)"

definition plainToString :: url_serializer where
  "plainToString u =
     protocol u @ ''//'' @ host u @ pathname u
       @ (if searchParams u = [] then []
          else ''?'' @ join ''&'' (map (\<lambda>kv. fst kv @ ''='' @ snd kv) (searchParams u)))
       @ hash u"

section \<open>url.ts\<close>

text \<open>
  \<open>sameOrigin\<close> builds two \<open>URL\<close> objects, \<open>a\<close> first; either constructor may throw.
\<close>

definition sameOrigin :: "url_parser \<Rightarrow> string \<Rightarrow> string \<Rightarrow> error + bool" where
  "sameOrigin parseURL a b =
     (case parseURL a of
        None \<Rightarrow> Inl TypeError
      | Some ua \<Rightarrow>
         (case parseURL b of
            None \<Rightarrow> Inl TypeError
          | Some ub \<Rightarrow> Inr (protocol ua = protocol ub \<and> host ua = host ub)))"

definition utmKeys :: "string list" where
  "utmKeys =
     [''utm_source'', ''utm_medium'', ''utm_campaign'', ''utm_term'', ''utm_content'',
      ''gclid'', ''fbclid'', ''msclkid'', ''ttclid'', ''twclid'', ''li_fat_id'', ''wbraid'', ''gbraid'']"

definition stripUtm :: "url_parser \<Rightarrow> url_serializer \<Rightarrow> string \<Rightarrow> error + string" where
  "stripUtm parseURL toString s =
     (case parseURL s of
        None \<Rightarrow> Inl TypeError
      | Some u \<Rightarrow> Inr (toString (fold searchParams_delete utmKeys u)))"

section \<open>robots.ts\<close>

record RobotsRules =
  sitemaps :: "string list"
  disallow :: "string list"

text \<open>The \<open>for\<close> loop of \<open>isAllowedByRobots\<close>: empty entries are skipped, the first
  entry that is a prefix of the path returns \<open>false\<close>.\<close>

fun disallowLoop :: "string \<Rightarrow> string list \<Rightarrow> bool" where
  "disallowLoop path [] = True"
| "disallowLoop path (dis # rest) =
     (if dis = [] then disallowLoop path rest
      else if prefix dis path then False
      else disallowLoop path rest)"

definition isAllowedByRobots :: "url_parser \<Rightarrow> string \<Rightarrow> RobotsRules \<Rightarrow> string \<Rightarrow> error + bool" where
  "isAllowedByRobots parseURL baseUrl rules candidateUrl =
     (case sameOrigin parseURL baseUrl candidateUrl of
        Inl e \<Rightarrow> Inl e
      | Inr so \<Rightarrow>
         if \<not> so then Inr False
         else (case parseURL candidateUrl of
                 None \<Rightarrow> Inl TypeError
               | Some u \<Rightarrow>
                  (let path = (if pathname u = [] then ''/'' else pathname u)
                   in Inr (disallowLoop path (disallow rules)))))"

section \<open>crawl.ts: the funnel builder\<close>

record PageFinding =
  url :: string
  finalUrl :: string
  status :: int
  score :: int
  reasons :: "string list"
  title :: "string option"
  ctaLinks :: "string list"
  allOutLinks :: "string list"

record FunnelPath =
  landing :: string
  steps :: "string list"
  conversion :: string
  confidence :: int

definition CONVERSION_HINTS :: "string list" where
  "CONVERSION_HINTS =
     [''checkout'', ''order'', ''pay'', ''cart'', ''thank'', ''success'', ''confirm'', ''complete'']"

text \<open>\<open>String.prototype.toLowerCase\<close> on ASCII, which is all a URL's pathname holds.\<close>

definition toLowerCaseChar :: "char \<Rightarrow> char" where
  "toLowerCaseChar c =
     (case map_of (zip ''ABCDEFGHIJKLMNOPQRSTUVWXYZ'' ''abcdefghijklmnopqrstuvwxyz'') c of
        None \<Rightarrow> c | Some l \<Rightarrow> l)"

definition toLowerCase :: "string \<Rightarrow> string" where
  "toLowerCase s = map toLowerCaseChar s"

text \<open>\<open>s.includes(h)\<close>: \<open>h\<close> occurs in \<open>s\<close> as a contiguous substring.\<close>

definition str_includes :: "string \<Rightarrow> string \<Rightarrow> bool" where
  "str_includes s h = sublist h s"

definition isProbablyConversion :: "url_parser \<Rightarrow> string \<Rightarrow> error + bool" where
  "isProbablyConversion parseURL u =
     (case parseURL u of
        None \<Rightarrow> Inl TypeError
      | Some x \<Rightarrow>
         (let p = toLowerCase (pathname x)
          in Inr (list_ex (\<lambda>h. str_includes p h) CONVERSION_HINTS)))"

text \<open>
  A JavaScript \<open>Map\<close> built from a list of entries, or filled by \<open>set\<close> in list order:
  a later entry for a key replaces an earlier one.
\<close>

definition mapGet :: "('k \<times> 'v) list \<Rightarrow> 'k \<Rightarrow> 'v option" where
  "mapGet entries k = map_of (rev entries) k"

definition byUrlEntries :: "PageFinding list \<Rightarrow> (string \<times> PageFinding) list" where
  "byUrlEntries adPages = map (\<lambda>p. (finalUrl p, p)) adPages"

definition adjList :: "(string \<times> PageFinding) list \<Rightarrow> PageFinding \<Rightarrow> string list" where
  "adjList byUrl p =
     (let ctas = filter (\<lambda>l. mapGet byUrl l \<noteq> None) (ctaLinks p);
          others = filter (\<lambda>l. mapGet byUrl l \<noteq> None \<and> l \<notin> set ctas) (allOutLinks p)
      in ctas @ others)"

definition adjEntries :: "PageFinding list \<Rightarrow> (string \<times> string list) list" where
  "adjEntries adPages = map (\<lambda>p. (finalUrl p, adjList (byUrlEntries adPages) p)) adPages"

definition maxSteps :: nat where
  "maxSteps = 5"

text \<open>
  The variables of the breadth-first search. \<open>parent\<close> is a \<open>Map<string, string | null>\<close>.
  \<open>dequeued\<close> is not a variable of the source: it records the results of
  \<open>queue.shift()\<close> in order, so that the order of the search can be spoken about.
\<close>

record bfs_state =
  visited :: "string set"
  parent :: "string \<rightharpoonup> string option"
  depth :: "string \<rightharpoonup> nat"
  queue :: "string list"
  dequeued :: "string list"

definition bfsInit :: "string \<Rightarrow> bfs_state" where
  "bfsInit start =
     \<lparr>visited = {start}, parent = [start \<mapsto> None], depth = [start \<mapsto> 0],
      queue = [start], dequeued = []\<rparr>"

text \<open>The inner \<open>for (const nxt of adj.get(cur) || [])\<close>.\<close>

fun expandLoop :: "string \<Rightarrow> nat \<Rightarrow> string list \<Rightarrow> bfs_state \<Rightarrow> bfs_state" where
  "expandLoop cur d [] st = st"
| "expandLoop cur d (nxt # rest) st =
     (if nxt \<in> visited st then expandLoop cur d rest st
      else expandLoop cur d rest
             (st\<lparr>visited := insert nxt (visited st),
                 parent := (parent st)(nxt \<mapsto> Some cur),
                 depth := (depth st)(nxt \<mapsto> d + 1),
                 queue := queue st @ [nxt]\<rparr>))"

text \<open>\<open>depth.get(cur) || 0\<close>.\<close>

definition depthGet :: "(string \<rightharpoonup> nat) \<Rightarrow> string \<Rightarrow> nat" where
  "depthGet dm n = (case dm n of None \<Rightarrow> 0 | Some k \<Rightarrow> k)"

definition adjGet :: "(string \<times> string list) list \<Rightarrow> string \<Rightarrow> string list" where
  "adjGet adj cur = (case mapGet adj cur of None \<Rightarrow> [] | Some ns \<Rightarrow> ns)"

definition adjNodes :: "(string \<times> string list) list \<Rightarrow> string set" where
  "adjNodes adj = \<Union> (set ` snd ` set adj)"

lemma adjGet_subset: "set (adjGet adj cur) \<subseteq> adjNodes adj"
proof (cases "mapGet adj cur")
  case None
  then show ?thesis by (simp add: adjGet_def)
next
  case (Some ns)
  then have "(cur, ns) \<in> set (rev adj)"
    unfolding mapGet_def by (rule map_of_SomeD)
  then have "ns \<in> snd ` set adj" by force
  then show ?thesis using Some by (auto simp: adjGet_def adjNodes_def)
qed

lemma expandLoop_measure:
  "finite U \<Longrightarrow> set ns \<subseteq> U \<Longrightarrow>
   card (U - visited (expandLoop cur d ns st)) + length (queue (expandLoop cur d ns st))
     = card (U - visited st) + length (queue st)"
proof (induction ns arbitrary: st)
  case Nil
  show ?case by simp
next
  case (Cons nxt rest)
  show ?case
  proof (cases "nxt \<in> visited st")
    case True
    then show ?thesis using Cons by simp
  next
    case False
    let ?st = "st\<lparr>visited := insert nxt (visited st),
                 parent := (parent st)(nxt \<mapsto> Some cur),
                 depth := (depth st)(nxt \<mapsto> d + 1),
                 queue := queue st @ [nxt]\<rparr>"
    have in_U: "nxt \<in> U - visited st" using Cons.prems False by simp
    have "U - visited ?st = (U - visited st) - {nxt}" by auto
    then have "card (U - visited ?st) = card (U - visited st) - 1"
      using in_U by simp
    moreover have "card (U - visited st) > 0"
      using in_U Cons.prems(1) by (metis card_gt_0_iff empty_iff finite_Diff)
    ultimately have "card (U - visited ?st) + length (queue ?st)
        = card (U - visited st) + length (queue st)" by simp
    moreover have "card (U - visited (expandLoop cur d rest ?st))
          + length (queue (expandLoop cur d rest ?st))
        = card (U - visited ?st) + length (queue ?st)"
      using Cons.IH [of ?st] Cons.prems by simp
    ultimately show ?thesis using False by simp
  qed
qed

lemma expandLoop_visited_mono: "visited st \<subseteq> visited (expandLoop cur d ns st)"
proof (induction ns arbitrary: st)
  case Nil
  show ?case by simp
next
  case (Cons nxt rest)
  show ?case
  proof (cases "nxt \<in> visited st")
    case True
    then show ?thesis using Cons.IH [of st] by simp
  next
    case False
    then show ?thesis
      using Cons.IH [of "st\<lparr>visited := insert nxt (visited st),
                 parent := (parent st)(nxt \<mapsto> Some cur),
                 depth := (depth st)(nxt \<mapsto> d + 1),
                 queue := queue st @ [nxt]\<rparr>"] by auto
  qed
qed

lemma bfs_step_le:
  "2 * card (adjNodes adj - visited (expandLoop cur d (adjGet adj cur)
              (st\<lparr>queue := rest, dequeued := dq\<rparr>)))
          + length (queue (expandLoop cur d (adjGet adj cur)
              (st\<lparr>queue := rest, dequeued := dq\<rparr>)))
        \<le> 2 * card (adjNodes adj - visited st) + length rest"
proof -
  let ?st1 = "st\<lparr>queue := rest, dequeued := dq\<rparr>"
  let ?st2 = "expandLoop cur d (adjGet adj cur) ?st1"
  have fin: "finite (adjNodes adj)" by (simp add: adjNodes_def)
  have "card (adjNodes adj - visited ?st2) + length (queue ?st2)
        = card (adjNodes adj - visited ?st1) + length (queue ?st1)"
    by (rule expandLoop_measure [OF fin adjGet_subset])
  moreover have "card (adjNodes adj - visited ?st2) \<le> card (adjNodes adj - visited st)"
    using expandLoop_visited_mono [of ?st1 cur d "adjGet adj cur"] fin
    by (intro card_mono) auto
  ultimately show ?thesis by simp
qed

text \<open>
  The \<open>while (queue.length)\<close> loop. It returns \<open>foundConv\<close> and the final variables, or
  the \<open>TypeError\<close> of \<open>isProbablyConversion\<close>.
\<close>

function bfsLoop ::
  "url_parser \<Rightarrow> (string \<times> string list) list \<Rightarrow> string \<Rightarrow> bfs_state
     \<Rightarrow> error + (string option \<times> bfs_state)" where
  "bfsLoop parseURL adj start st =
     (case queue st of
        [] \<Rightarrow> Inr (None, st)
      | cur # rest \<Rightarrow>
         (let st1 = st\<lparr>queue := rest, dequeued := dequeued st @ [cur]\<rparr>;
              d = depthGet (depth st) cur
          in if d > maxSteps then bfsLoop parseURL adj start st1
             else if cur \<noteq> start then
               (case isProbablyConversion parseURL cur of
                  Inl e \<Rightarrow> Inl e
                | Inr True \<Rightarrow> Inr (Some cur, st1)
                | Inr False \<Rightarrow> bfsLoop parseURL adj start (expandLoop cur d (adjGet adj cur) st1))
             else bfsLoop parseURL adj start (expandLoop cur d (adjGet adj cur) st1)))"
  by pat_completeness auto


termination
  apply (relation "measure (\<lambda>(parseURL, adj, start, st).
          2 * card (adjNodes adj - visited st) + length (queue st))")
     apply simp
    apply simp
   apply (simp add: less_Suc_eq_le bfs_step_le)
  apply (simp add: less_Suc_eq_le bfs_step_le)
  done


text \<open>
  \<open>parent.get(cur) || null\<close>: a missing key, \<open>null\<close> and the empty string all give
  \<open>null\<close>.
\<close>

definition orNull :: "string option option \<Rightarrow> string option" where
  "orNull r = (case r of
                 None \<Rightarrow> None
               | Some None \<Rightarrow> None
               | Some (Some p) \<Rightarrow> if p = [] then None else Some p)"

text \<open>
  The path reconstruction \<open>while (cur && cur !== start.finalUrl)\<close>. \<open>acc\<close> is \<open>steps\<close>
  in push order. The source has no bound on this loop: \<open>None\<close> is the loop not
  returning.
\<close>

partial_function (option) walkParents ::
  "(string \<rightharpoonup> string option) \<Rightarrow> string \<Rightarrow> string option \<Rightarrow> string list
     \<Rightarrow> string list option" where
  "walkParents par start cur acc =
     (case cur of
        None \<Rightarrow> Some acc
      | Some c \<Rightarrow>
         if c = [] \<or> c = start then Some acc
         else walkParents par start (orNull (par c)) (acc @ [c]))"

declare walkParents.simps [code]

text \<open>
  \<open>Math.round\<close> rounds to the nearest integer, a half upwards. Numbers are exact
  rationals here; the scores the pipeline produces are small integers, on which the
  double arithmetic of the source gives the same rounded value.
\<close>

definition mathRound :: "rat \<Rightarrow> int" where
  "mathRound x = \<lfloor>x + 1 / 2\<rfloor>"

text \<open>
  One iteration of \<open>for (const start of adPages)\<close>: \<open>Inr None\<close> is \<open>continue\<close>,
  \<open>Inr (Some f)\<close> is \<open>funnels.push(f)\<close>.
\<close>

definition funnelFrom ::
  "url_parser \<Rightarrow> (string \<times> PageFinding) list \<Rightarrow> (string \<times> string list) list
     \<Rightarrow> PageFinding \<Rightarrow> (error + FunnelPath option) option" where
  "funnelFrom parseURL byUrl adj start =
     (if score start < 18 then Some (Inr None)
      else
        (case isProbablyConversion parseURL (finalUrl start) of
           Inl e \<Rightarrow> Some (Inl e)
         | Inr isConv \<Rightarrow>
            if isConv then Some (Inr None)
            else
              (case bfsLoop parseURL adj (finalUrl start) (bfsInit (finalUrl start)) of
                 Inl e \<Rightarrow> Some (Inl e)
               | Inr (foundConv, st) \<Rightarrow>
                  (case foundConv of
                     None \<Rightarrow> Some (Inr None)
                   | Some conv \<Rightarrow>
                      if conv = [] then Some (Inr None)
                      else
                        (case walkParents (parent st) (finalUrl start) (Some conv) [] of
                           None \<Rightarrow> None
                         | Some pushed \<Rightarrow>
                            (let steps' = rev pushed;
                                 convPage = mapGet byUrl conv;
                                 c = min 100
                                       (of_int (score start * 2)
                                        + of_int (case convPage of None \<Rightarrow> 0 | Some cp \<Rightarrow> score cp)
                                        + (if length steps' \<noteq> 0
                                           then 10 / of_nat (length steps') else 0))
                             in Some (Inr (Some \<lparr>landing = finalUrl start, steps = steps',
                                                  conversion = conv,
                                                  confidence = mathRound c\<rparr>))))))))"

fun collectFunnels ::
  "url_parser \<Rightarrow> (string \<times> PageFinding) list \<Rightarrow> (string \<times> string list) list
     \<Rightarrow> PageFinding list \<Rightarrow> FunnelPath list \<Rightarrow> (error + FunnelPath list) option" where
  "collectFunnels parseURL byUrl adj [] funnels = Some (Inr funnels)"
| "collectFunnels parseURL byUrl adj (start # rest) funnels =
     (case funnelFrom parseURL byUrl adj start of
        None \<Rightarrow> None
      | Some (Inl e) \<Rightarrow> Some (Inl e)
      | Some (Inr None) \<Rightarrow> collectFunnels parseURL byUrl adj rest funnels
      | Some (Inr (Some f)) \<Rightarrow> collectFunnels parseURL byUrl adj rest (funnels @ [f]))"

text \<open>The key of the final \<open>filter\<close>; the separator of the template string is
  written as the eight bytes the source file holds between the two placeholders.\<close>

definition funnelKey :: "FunnelPath \<Rightarrow> string" where
  "funnelKey f =
     landing f
       @ [CHR 0xC3, CHR 0xA2, CHR 0xE2, CHR 0x80, CHR 0xA0, CHR 0xE2, CHR 0x80, CHR 0x99]
       @ conversion f"

fun dedupeLoop :: "string set \<Rightarrow> FunnelPath list \<Rightarrow> FunnelPath list" where
  "dedupeLoop seen [] = []"
| "dedupeLoop seen (f # fs) =
     (if funnelKey f \<in> seen then dedupeLoop seen fs
      else f # dedupeLoop (insert (funnelKey f) seen) fs)"

text \<open>\<open>Array.prototype.sort\<close> is stable, as \<open>sort_key\<close> is; the comparator
  \<open>b.confidence - a.confidence\<close> orders by descending confidence.\<close>

definition buildFunnels :: "url_parser \<Rightarrow> PageFinding list \<Rightarrow> (error + FunnelPath list) option" where
  "buildFunnels parseURL adPages =
     (case collectFunnels parseURL (byUrlEntries adPages) (adjEntries adPages) adPages [] of
        None \<Rightarrow> None
      | Some (Inl e) \<Rightarrow> Some (Inl e)
      | Some (Inr funnels) \<Rightarrow>
         Some (Inr (dedupeLoop {} (sort_key (\<lambda>f. - confidence f) funnels))))"

subsection \<open>The report and the end of \<open>runFunnelFinder\<close>\<close>

text \<open>A template literal prints an integer of absolute value below \<open>10^21\<close> in
  decimal; the scores and confidences of a run are far below that.\<close>

fun natToString :: "nat \<Rightarrow> string" where
  "natToString n =
     (if n < 10 then [''0123456789'' ! n]
      else natToString (n div 10) @ [''0123456789'' ! (n mod 10)])"

definition numberToString :: "int \<Rightarrow> string" where
  "numberToString i = (if i < 0 then ''-'' @ natToString (nat (- i)) else natToString (nat i))"

definition funnelLine :: "FunnelPath \<Rightarrow> string" where
  "funnelLine f =
     (let chain = join '' -> '' (landing f # steps f)
      in ''- ['' @ numberToString (confidence f) @ ''] '' @ chain)"

definition pageLine :: "PageFinding \<Rightarrow> string" where
  "pageLine p = ''- ('' @ numberToString (score p) @ '') '' @ finalUrl p"

definition formatOutputText :: "string \<Rightarrow> PageFinding list \<Rightarrow> FunnelPath list \<Rightarrow> string" where
  "formatOutputText baseUrl adLikePages funnels =
     join [CHR 0x0A]
       ([''# Funnel Finder Output'', ''Base: '' @ baseUrl, '''',
         ''## Funnels (landing -> ... -> conversion)'']
        @ (if funnels = [] then [''(none found)''] else map funnelLine funnels)
        @ ['''', ''## Ad-like Pages (best candidates for ads)'']
        @ (if adLikePages = [] then [''(none)''] else map pageLine adLikePages))"

text \<open>
  Steps 5 to 7 of \<open>runFunnelFinder\<close>, from the list \<open>checked\<close> of scored pages on:
  sort by descending score, keep the pages with score at least 18, at most 250 of
  them, build the funnels, format the report. The result is
  \<open>(adLikePages, funnels, outputText)\<close>.
\<close>

definition adLikeOf :: "PageFinding list \<Rightarrow> PageFinding list" where
  "adLikeOf checked =
     (let valid = sort_key (\<lambda>p. - score p) checked
      in take 250 (filter (\<lambda>p. score p \<ge> 18) valid))"

definition runFunnelFinder_report ::
  "url_parser \<Rightarrow> string \<Rightarrow> PageFinding list
     \<Rightarrow> (error + PageFinding list \<times> FunnelPath list \<times> string) option" where
  "runFunnelFinder_report parseURL baseUrl checked =
     (let adLikePages = adLikeOf checked
      in case buildFunnels parseURL adLikePages of
           None \<Rightarrow> None
         | Some (Inl e) \<Rightarrow> Some (Inl e)
         | Some (Inr funnels) \<Rightarrow>
            Some (Inr (adLikePages, funnels, formatOutputText baseUrl adLikePages funnels)))"

subsection \<open>The funnel in the words of the specification\<close>

text \<open>
  In the specification a funnel's steps are the URLs strictly between the landing and
  the conversion, and the step count is their number. The array \<open>steps\<close> of the
  record ends with the conversion URL; \<open>intermediateSteps\<close> is the array without it.
  \<open>specConfidence\<close> is the confidence formula and \<open>specChainLine\<close> the report line as the
  specification words them.
\<close>

definition intermediateSteps :: "FunnelPath \<Rightarrow> string list" where
  "intermediateSteps f = butlast (steps f)"

definition specConfidence :: "int \<Rightarrow> int \<Rightarrow> nat \<Rightarrow> int" where
  "specConfidence landingScore conversionScore stepCount =
     min 100 (mathRound (2 * of_int landingScore + of_int conversionScore
                          + (if stepCount > 0 then 10 / of_nat stepCount else 10)))"

definition specChainLine :: "FunnelPath \<Rightarrow> string" where
  "specChainLine f =
     ''- ['' @ numberToString (confidence f) @ ''] ''
       @ join '' -> '' ([landing f] @ intermediateSteps f @ [conversion f])"

subsection \<open>A three-page site\<close>

definition examplePage :: "string \<Rightarrow> int \<Rightarrow> string list \<Rightarrow> string list \<Rightarrow> PageFinding" where
  "examplePage u sc ctas outs =
     \<lparr>url = u, finalUrl = u, status = 200, score = sc, reasons = [], title = None,
      ctaLinks = ctas, allOutLinks = outs\<rparr>"

definition exampleSite :: "PageFinding list" where
  "exampleSite =
     [examplePage ''https://a.com/lp'' 20 [] [''https://a.com/offer''],
      examplePage ''https://a.com/offer'' 20 [] [''https://a.com/checkout''],
      examplePage ''https://a.com/checkout'' 20 [] []]"

definition funnelViaOffer :: FunnelPath where
  "funnelViaOffer =
     \<lparr>landing = ''https://a.com/lp'',
      steps = [''https://a.com/offer'', ''https://a.com/checkout''],
      conversion = ''https://a.com/checkout'', confidence = 65\<rparr>"

definition funnelDirect :: FunnelPath where
  "funnelDirect =
     \<lparr>landing = ''https://a.com/offer'', steps = [''https://a.com/checkout''],
      conversion = ''https://a.com/checkout'', confidence = 70\<rparr>"

section \<open>sitemap.ts\<close>

text \<open>
  \<open>Array.from(new Set(xs))\<close>: the elements of \<open>xs\<close> in order of first occurrence.
\<close>

definition arrayFromSet :: "'a list \<Rightarrow> 'a list" where
  "arrayFromSet xs = rev (remdups (rev xs))"

record Parsed =
  urls :: "string list"
  childSitemaps :: "string list"

definition maxSitemapsToFetch :: nat where
  "maxSitemapsToFetch = 20"

text \<open>
  The \<open>while\<close> loop of \<open>discoverSitemapUrls\<close>. The network is the parameter
  \<open>fetchText\<close>: its first argument is the number of fetches issued before, so that any
  sequence of outcomes is a value of it; \<open>None\<close> is the \<open>null\<close> of a failed fetch.
  \<open>parseSitemapXml\<close> is a parameter, being built on the XML library. The loop
  variables are \<open>smQueue\<close> (\<open>queue\<close>), \<open>foundSitemaps\<close>, \<open>pageUrls\<close> (\<open>urls\<close>) and
  \<open>seenSm\<close>. \<open>fetchLog\<close> is not a variable of the source: it records each call of
  \<open>fetchText\<close> with whether its text was kept.
\<close>

function discoverLoop ::
  "(nat \<Rightarrow> string \<Rightarrow> string option) \<Rightarrow> (string \<Rightarrow> Parsed)
     \<Rightarrow> string list \<Rightarrow> string list \<Rightarrow> string list \<Rightarrow> string set \<Rightarrow> (string \<times> bool) list
     \<Rightarrow> string list \<times> string list \<times> (string \<times> bool) list" where
  "discoverLoop fetchText parseSitemapXml smQueue foundSitemaps pageUrls seenSm fetchLog =
     (if smQueue \<noteq> [] \<and> length foundSitemaps < maxSitemapsToFetch then
        (let sm = hd smQueue; rest = tl smQueue
         in if sm \<in> seenSm
            then discoverLoop fetchText parseSitemapXml rest foundSitemaps pageUrls seenSm fetchLog
            else
              (let seenSm' = insert sm seenSm;
                   text = fetchText (length fetchLog) sm
               in if text = None \<or> text = Some []
                  then discoverLoop fetchText parseSitemapXml rest foundSitemaps pageUrls
                         seenSm' (fetchLog @ [(sm, False)])
                  else
                    (let parsed = parseSitemapXml (the text)
                     in discoverLoop fetchText parseSitemapXml
                          (rest @ filter (\<lambda>child. child \<notin> seenSm') (childSitemaps parsed))
                          (foundSitemaps @ [sm]) (pageUrls @ urls parsed)
                          seenSm' (fetchLog @ [(sm, True)]))))
      else (pageUrls, foundSitemaps, fetchLog))"
  by pat_completeness auto
termination
  by (relation "measures
        [\<lambda>(fetchText, parseSitemapXml, smQueue, foundSitemaps, pageUrls, seenSm, fetchLog).
             maxSitemapsToFetch - length foundSitemaps,
         \<lambda>(fetchText, parseSitemapXml, smQueue, foundSitemaps, pageUrls, seenSm, fetchLog).
             length smQueue]") auto

text \<open>
  \<open>discoverSitemapUrls\<close> returns \<open>{urls, foundSitemaps}\<close>; \<open>discoverRun\<close> is the same
  computation with the log of fetches as third component.
\<close>

definition discoverRun ::
  "(nat \<Rightarrow> string \<Rightarrow> string option) \<Rightarrow> (string \<Rightarrow> Parsed) \<Rightarrow> URL \<Rightarrow> string list
     \<Rightarrow> string list \<times> string list \<times> (string \<times> bool) list" where
  "discoverRun fetchText parseSitemapXml base extraSitemaps =
     (let defaults = [protocol base @ ''//'' @ host base @ ''/sitemap.xml''];
          smQueue = arrayFromSet (defaults @ extraSitemaps)
      in discoverLoop fetchText parseSitemapXml smQueue [] [] {} [])"

definition discoverSitemapUrls ::
  "url_parser \<Rightarrow> (nat \<Rightarrow> string \<Rightarrow> string option) \<Rightarrow> (string \<Rightarrow> Parsed)
     \<Rightarrow> string \<Rightarrow> string list \<Rightarrow> error + string list \<times> string list" where
  "discoverSitemapUrls parseURL fetchText parseSitemapXml baseUrl extraSitemaps =
     (case parseURL baseUrl of
        None \<Rightarrow> Inl TypeError
      | Some base \<Rightarrow>
         (case discoverRun fetchText parseSitemapXml base extraSitemaps of
            (pageUrls, foundSitemaps, fetchLog) \<Rightarrow>
              Inr (arrayFromSet pageUrls, arrayFromSet foundSitemaps)))"

subsection \<open>A two-level sitemap index\<close>

definition exampleFetchText :: "nat \<Rightarrow> string \<Rightarrow> string option" where
  "exampleFetchText i u =
     (if u = ''https://a.com/sitemap.xml'' then Some ''index''
      else if u = ''https://a.com/s1.xml'' then Some ''one''
      else if u = ''https://a.com/s2.xml'' then Some ''two''
      else None)"

definition exampleParseSitemapXml :: "string \<Rightarrow> Parsed" where
  "exampleParseSitemapXml t =
     (if t = ''index''
      then \<lparr>urls = [], childSitemaps = [''https://a.com/s1.xml'', ''https://a.com/s2.xml'']\<rparr>
      else if t = ''one'' then \<lparr>urls = [''https://a.com/lp''], childSitemaps = []\<rparr>
      else if t = ''two''
      then \<lparr>urls = [''https://a.com/offer'', ''https://a.com/lp''], childSitemaps = []\<rparr>
      else \<lparr>urls = [], childSitemaps = []\<rparr>)"

subsection \<open>An endless chain of sitemap indexes\<close>

text \<open>Every fetch succeeds and every document names one new child sitemap.\<close>

definition endlessFetchText :: "nat \<Rightarrow> string \<Rightarrow> string option" where
  "endlessFetchText i u = Some u"

definition endlessParseSitemapXml :: "string \<Rightarrow> Parsed" where
  "endlessParseSitemapXml t = \<lparr>urls = [], childSitemaps = [t @ ''x'']\<rparr>"

section \<open>crawl.ts: the crawler\<close>

text \<open>
  \<open>String.prototype.trim\<close> on ASCII: space, tab, line feed, vertical tab, form feed
  and carriage return are removed at both ends.
\<close>

definition isWhiteSpace :: "char \<Rightarrow> bool" where
  "isWhiteSpace c \<longleftrightarrow> c \<in> set [CHR 0x20, CHR 0x09, CHR 0x0A, CHR 0x0B, CHR 0x0C, CHR 0x0D]"

definition trim :: "string \<Rightarrow> string" where
  "trim s = rev (dropWhile isWhiteSpace (rev (dropWhile isWhiteSpace s)))"

text \<open>\<open>normalizeUrl\<close> of \<open>url.ts\<close>; the test \<open>/^https?:\/\//i\<close> ignores case.\<close>

definition normalizeUrl :: "url_parser \<Rightarrow> url_serializer \<Rightarrow> string \<Rightarrow> error + string" where
  "normalizeUrl parseURL toString input =
     (let trimmed = trim input
      in if trimmed = [] then Inl EmptyUrl
         else
           (let withProto =
                  (if prefix ''http://'' (toLowerCase trimmed)
                      \<or> prefix ''https://'' (toLowerCase trimmed)
                   then trimmed else ''https://'' @ trimmed)
            in case parseURL withProto of
                 None \<Rightarrow> Inl TypeError
               | Some u \<Rightarrow> Inr (toString (u\<lparr>hash := []\<rparr>))))"

text \<open>
  \<open>toAbsoluteUrl\<close> of \<open>url.ts\<close>. The two-argument constructor \<open>new URL(h, base)\<close> is
  the parameter \<open>resolveURL\<close>; its \<open>TypeError\<close> is caught and gives \<open>null\<close>.
\<close>

type_synonym url_resolver = "string \<Rightarrow> string \<Rightarrow> URL option"

definition toAbsoluteUrl :: "url_resolver \<Rightarrow> url_serializer \<Rightarrow> string \<Rightarrow> string \<Rightarrow> string option" where
  "toAbsoluteUrl resolveURL toString base href =
     (let h = trim href
      in if h = [] then None
         else if prefix ''#'' h then None
         else if prefix ''mailto:'' h \<or> prefix ''tel:'' h \<or> prefix ''javascript:'' h then None
         else (case resolveURL h base of
                 None \<Rightarrow> None
               | Some a \<Rightarrow> Some (toString (a\<lparr>hash := []\<rparr>))))"

definition EXCLUDE_KEYWORDS :: "string list" where
  "EXCLUDE_KEYWORDS =
     [''faq'', ''faqs'', ''blog'', ''posts'', ''article'', ''news'',
      ''privacy'', ''terms'', ''legal'', ''policy'', ''cookies'',
      ''contact'', ''about'', ''team'', ''careers'', ''jobs'', ''support'', ''help'',
      ''refund'', ''returns'', ''shipping'', ''track-order'',
      ''documentation'', ''docs'', ''knowledge-base'']"

definition ASSET_EXTENSIONS :: "string list" where
  "ASSET_EXTENSIONS =
     [''png'', ''jpg'', ''jpeg'', ''gif'', ''webp'', ''svg'', ''ico'', ''css'', ''js'', ''map'',
      ''pdf'', ''zip'', ''mp4'', ''mov'', ''webm'']"

definition looksExcluded :: "url_parser \<Rightarrow> string \<Rightarrow> error + bool" where
  "looksExcluded parseURL u =
     (case parseURL u of
        None \<Rightarrow> Inl TypeError
      | Some x \<Rightarrow>
         (let path = toLowerCase (if pathname x = [] then ''/'' else pathname x)
          in if list_ex (\<lambda>e. suffix (''.'' @ e) path) ASSET_EXTENSIONS then Inr True
             else if list_ex (\<lambda>k. str_includes path (''/'' @ k) \<or> str_includes path (''-'' @ k)
                                    \<or> str_includes path (k @ ''-'')) EXCLUDE_KEYWORDS
             then Inr True
             else Inr False))"

definition maxQueue :: nat where
  "maxQueue = 5000"

text \<open>
  The callback of \<open>$("a[href]").each\<close>, over the \<open>href\<close> values of the page in
  document order. An exception of \<open>sameOrigin\<close>, \<open>stripUtm\<close> or \<open>looksExcluded\<close> is not
  caught by the crawler.
\<close>

fun linkLoop ::
  "url_parser \<Rightarrow> url_resolver \<Rightarrow> url_serializer \<Rightarrow> string \<Rightarrow> string \<Rightarrow> nat \<Rightarrow> string list
     \<Rightarrow> (string \<times> nat) list \<Rightarrow> string set \<Rightarrow> error + (string \<times> nat) list \<times> string set" where
  "linkLoop parseURL resolveURL toString base pageUrl pageDepth [] q seen = Inr (q, seen)"
| "linkLoop parseURL resolveURL toString base pageUrl pageDepth (href # hrefs) q seen =
     (case toAbsoluteUrl resolveURL toString pageUrl href of
        None \<Rightarrow> linkLoop parseURL resolveURL toString base pageUrl pageDepth hrefs q seen
      | Some absUrl \<Rightarrow>
         (case sameOrigin parseURL base absUrl of
            Inl e \<Rightarrow> Inl e
          | Inr so \<Rightarrow>
             if \<not> so then linkLoop parseURL resolveURL toString base pageUrl pageDepth hrefs q seen
             else
               (case stripUtm parseURL toString absUrl of
                  Inl e \<Rightarrow> Inl e
                | Inr normUrl \<Rightarrow>
                   if normUrl \<in> seen
                   then linkLoop parseURL resolveURL toString base pageUrl pageDepth hrefs q seen
                   else
                     (case looksExcluded parseURL normUrl of
                        Inl e \<Rightarrow> Inl e
                      | Inr ex \<Rightarrow>
                         if \<not> ex
                         then linkLoop parseURL resolveURL toString base pageUrl pageDepth hrefs
                                (q @ [(normUrl, pageDepth + 1)]) (insert normUrl seen)
                         else linkLoop parseURL resolveURL toString base pageUrl pageDepth hrefs
                                q (insert normUrl seen)))))"

text \<open>
  The \<open>while\<close> loop of \<open>crawlInternalLinks\<close>. The site is the parameter \<open>fetchHrefs\<close>:
  the \<open>href\<close> values of the anchors of the document \<open>fetchHtmlWithFallback\<close> returns
  for a URL, \<open>None\<close> where it throws (the \<open>catch\<close> continues). The result is \<open>found\<close>.
\<close>

function crawlLoop ::
  "url_parser \<Rightarrow> url_resolver \<Rightarrow> url_serializer \<Rightarrow> (string \<Rightarrow> string list option)
     \<Rightarrow> string \<Rightarrow> RobotsRules \<Rightarrow> nat \<Rightarrow> nat
     \<Rightarrow> (string \<times> nat) list \<Rightarrow> string set \<Rightarrow> string list \<Rightarrow> error + string list" where
  "crawlLoop parseURL resolveURL toString fetchHrefs base robots maxPages maxDepth q seen found =
     (if q \<noteq> [] \<and> length found < maxPages \<and> length q < maxQueue then
        (let pageUrl = fst (hd q); pageDepth = snd (hd q); rest = tl q
         in case isAllowedByRobots parseURL base robots pageUrl of
              Inl e \<Rightarrow> Inl e
            | Inr allowed \<Rightarrow>
               if \<not> allowed
               then crawlLoop parseURL resolveURL toString fetchHrefs base robots maxPages maxDepth
                      rest seen found
               else if pageDepth \<ge> maxDepth
               then crawlLoop parseURL resolveURL toString fetchHrefs base robots maxPages maxDepth
                      rest seen (found @ [pageUrl])
               else
                 (case fetchHrefs pageUrl of
                    None \<Rightarrow>
                      crawlLoop parseURL resolveURL toString fetchHrefs base robots maxPages maxDepth
                        rest seen (found @ [pageUrl])
                  | Some hrefs \<Rightarrow>
                     (case linkLoop parseURL resolveURL toString base pageUrl pageDepth hrefs
                             rest seen of
                        Inl e \<Rightarrow> Inl e
                      | Inr (q', seen') \<Rightarrow>
                         crawlLoop parseURL resolveURL toString fetchHrefs base robots
                           maxPages maxDepth q' seen' (found @ [pageUrl]))))
      else Inr found)"
  by pat_completeness auto
termination
  by (relation "measures
        [\<lambda>(parseURL, resolveURL, toString, fetchHrefs, base, robots, maxPages, maxDepth,
            q, seen, found). maxPages - length found,
         \<lambda>(parseURL, resolveURL, toString, fetchHrefs, base, robots, maxPages, maxDepth,
            q, seen, found). length q]") auto

definition crawlInternalLinks ::
  "url_parser \<Rightarrow> url_resolver \<Rightarrow> url_serializer \<Rightarrow> (string \<Rightarrow> string list option)
     \<Rightarrow> string \<Rightarrow> RobotsRules \<Rightarrow> nat \<Rightarrow> nat \<Rightarrow> error + string list" where
  "crawlInternalLinks parseURL resolveURL toString fetchHrefs seedUrl robots maxPages maxDepth =
     (case normalizeUrl parseURL toString seedUrl of
        Inl e \<Rightarrow> Inl e
      | Inr base \<Rightarrow>
         (case stripUtm parseURL toString base of
            Inl e \<Rightarrow> Inl e
          | Inr strippedBase \<Rightarrow>
             (case crawlLoop parseURL resolveURL toString fetchHrefs base robots maxPages maxDepth
                     [(base, 0)] {strippedBase} [] of
                Inl e \<Rightarrow> Inl e
              | Inr found \<Rightarrow> Inr (arrayFromSet found))))"

subsection \<open>A small site to crawl\<close>

text \<open>
  \<open>plainResolveURL\<close> resolves an absolute http(s) reference by itself, a reference
  that starts with \<open>//\<close> against the scheme of the base and one that starts with a
  single \<open>/\<close> against its origin, as the platform does. It is meant for these kinds
  of reference only: on a path-relative or query-only reference it is not the
  platform's resolver.
\<close>

definition plainResolveURL :: url_resolver where
  "plainResolveURL h base =
     (if prefix ''http://'' h \<or> prefix ''https://'' h then plainParseURL h
      else if prefix ''//'' h
      then (case plainParseURL base of
              None \<Rightarrow> None
            | Some b \<Rightarrow> plainParseURL (protocol b @ h))
      else if prefix ''/'' h
      then (case plainParseURL base of
              None \<Rightarrow> None
            | Some b \<Rightarrow> plainParseURL (protocol b @ ''//'' @ host b @ h))
      else None)"

definition exampleFetchHrefs :: "string \<Rightarrow> string list option" where
  "exampleFetchHrefs u =
     (if u = ''https://a.com/''
      then Some [''/lp?utm_source=ad'', ''/blog/post'', ''https://b.com/'', ''#top'', ''/lp'',
                 ''/admin/panel'']
      else if u = ''https://a.com/lp'' then Some [''/checkout'', ''/'', ''/lp#form'']
      else if u = ''https://a.com/checkout'' then None
      else Some [])"

definition exampleRobots :: RobotsRules where
  "exampleRobots = \<lparr>sitemaps = [], disallow = [''/admin'']\<rparr>"

subsection \<open>Invariants of the breadth-first search\<close>

text \<open>
  \<open>bfs_inv\<close> holds at the head of the \<open>while\<close> loop and \<open>expand_inv\<close> inside the
  \<open>for\<close> loop for the node \<open>cur\<close> of depth \<open>d\<close>; \<open>tree_inv\<close> is the part about
  the parent pointers, \<open>bfs_post\<close> what holds when a conversion is found.
\<close>

definition expand_inv ::
  "url_parser \<Rightarrow> (string \<times> string list) list \<Rightarrow> string \<Rightarrow> string \<Rightarrow> nat \<Rightarrow> bfs_state \<Rightarrow> bool" where
  "expand_inv P adj s cur d st \<longleftrightarrow>
     s \<in> visited st \<and> cur \<in> visited st \<and> depthGet (depth st) cur = d
   \<and> set (queue st) \<subseteq> visited st \<and> set (dequeued st) \<subseteq> visited st
   \<and> visited st \<subseteq> insert s (adjNodes adj)
   \<and> depthGet (depth st) s = 0
   \<and> (\<forall>n \<in> visited st. n \<noteq> s \<longrightarrow>
         (\<exists>p. parent st n = Some (Some p) \<and> p \<in> visited st
              \<and> depthGet (depth st) n = depthGet (depth st) p + 1))
   \<and> sorted (map (depthGet (depth st)) (queue st))
   \<and> (\<forall>m \<in> set (queue st). d \<le> depthGet (depth st) m \<and> depthGet (depth st) m \<le> d + 1)
   \<and> (\<forall>n \<in> set (dequeued st). depthGet (depth st) n \<le> d)
   \<and> (\<forall>n \<in> set (dequeued st). depthGet (depth st) n \<le> maxSteps \<longrightarrow>
         n = s \<or> isProbablyConversion P n = Inr False)"

definition bfs_inv ::
  "url_parser \<Rightarrow> (string \<times> string list) list \<Rightarrow> string \<Rightarrow> bfs_state \<Rightarrow> bool" where
  "bfs_inv P adj s st \<longleftrightarrow>
     s \<in> visited st
   \<and> set (queue st) \<subseteq> visited st \<and> set (dequeued st) \<subseteq> visited st
   \<and> visited st \<subseteq> insert s (adjNodes adj)
   \<and> depthGet (depth st) s = 0
   \<and> (\<forall>n \<in> visited st. n \<noteq> s \<longrightarrow>
         (\<exists>p. parent st n = Some (Some p) \<and> p \<in> visited st
              \<and> depthGet (depth st) n = depthGet (depth st) p + 1))
   \<and> sorted (map (depthGet (depth st)) (queue st))
   \<and> (\<forall>m \<in> set (queue st). depthGet (depth st) m \<le> depthGet (depth st) (hd (queue st)) + 1)
   \<and> (\<forall>n \<in> set (dequeued st). \<forall>m \<in> set (queue st).
         depthGet (depth st) n \<le> depthGet (depth st) m)
   \<and> (\<forall>n \<in> set (dequeued st). depthGet (depth st) n \<le> maxSteps \<longrightarrow>
         n = s \<or> isProbablyConversion P n = Inr False)"

definition tree_inv :: "(string \<times> string list) list \<Rightarrow> string \<Rightarrow> bfs_state \<Rightarrow> bool" where
  "tree_inv adj s st \<longleftrightarrow>
     s \<in> visited st \<and> visited st \<subseteq> insert s (adjNodes adj)
   \<and> depthGet (depth st) s = 0
   \<and> (\<forall>n \<in> visited st. n \<noteq> s \<longrightarrow>
         (\<exists>p. parent st n = Some (Some p) \<and> p \<in> visited st
              \<and> depthGet (depth st) n = depthGet (depth st) p + 1))"

definition bfs_post ::
  "url_parser \<Rightarrow> (string \<times> string list) list \<Rightarrow> string \<Rightarrow> string \<Rightarrow> bfs_state \<Rightarrow> bool" where
  "bfs_post P adj s conv st \<longleftrightarrow>
     conv \<noteq> s \<and> isProbablyConversion P conv = Inr True \<and> conv \<in> visited st
   \<and> depthGet (depth st) conv \<le> maxSteps \<and> tree_inv adj s st
   \<and> (\<exists>pre. dequeued st = pre @ [conv]
           \<and> (\<forall>n \<in> set pre. n = s \<or> isProbablyConversion P n = Inr False))"

text \<open>What holds of a funnel pushed in the iteration for \<open>start\<close>.\<close>

definition funnel_ok ::
  "url_parser \<Rightarrow> (string \<times> PageFinding) list \<Rightarrow> (string \<times> string list) list
     \<Rightarrow> PageFinding \<Rightarrow> FunnelPath \<Rightarrow> bool" where
  "funnel_ok P byUrl adj start f \<longleftrightarrow>
     18 \<le> score start \<and> isProbablyConversion P (finalUrl start) = Inr False
   \<and> landing f = finalUrl start
   \<and> (\<exists>st. bfsLoop P adj (finalUrl start) (bfsInit (finalUrl start))
              = Inr (Some (conversion f), st)
          \<and> bfs_post P adj (finalUrl start) (conversion f) st)
   \<and> steps f \<noteq> [] \<and> last (steps f) = conversion f \<and> length (steps f) \<le> maxSteps
   \<and> set (steps f) \<subseteq> adjNodes adj
   \<and> confidence f =
       mathRound (min 100
         (of_int (score start * 2)
          + of_int (case mapGet byUrl (conversion f) of None \<Rightarrow> 0 | Some cp \<Rightarrow> score cp)
          + 10 / of_nat (length (steps f))))"

subsection \<open>Invariant of sitemap discovery\<close>

text \<open>
  The kept fetches of the log are the sitemaps found, there are at most 20 of them, and
  nothing follows a prefix of the log with 20 kept fetches.
\<close>

definition log_ok :: "string list \<Rightarrow> (string \<times> bool) list \<Rightarrow> bool" where
  "log_ok foundSitemaps fetchLog \<longleftrightarrow>
     map fst (filter snd fetchLog) = foundSitemaps
   \<and> length foundSitemaps \<le> maxSitemapsToFetch
   \<and> (\<forall>pre post. fetchLog = pre @ post
          \<and> maxSitemapsToFetch \<le> length (filter snd pre) \<longrightarrow> post = [])"

subsection \<open>Breadth-first order of an adjacency\<close>

text \<open>
  The breadth-first order from a node \<open>s\<close>, by levels and without a queue: level 0 is
  \<open>[s]\<close>; the next level lists, for the nodes of a level in order, their neighbours in
  adjacency order that were not listed before, each once; the order is the levels one
  after the other. Nodes more than \<open>maxSteps\<close> links away from \<open>s\<close> are not expanded,
  so the order ends with level \<open>maxSteps + 1\<close>.
\<close>

fun newOf :: "string set \<Rightarrow> string list \<Rightarrow> string list" where
  "newOf listed [] = []"
| "newOf listed (m # ms) =
     (if m \<in> listed then newOf listed ms else m # newOf (insert m listed) ms)"

fun nextLevel :: "(string \<times> string list) list \<Rightarrow> string set \<Rightarrow> string list \<Rightarrow> string list" where
  "nextLevel adj listed [] = []"
| "nextLevel adj listed (n # ns) =
     newOf listed (adjGet adj n)
       @ nextLevel adj (listed \<union> set (newOf listed (adjGet adj n))) ns"

fun bfsRest ::
  "(string \<times> string list) list \<Rightarrow> string set \<Rightarrow> string list \<Rightarrow> nat \<Rightarrow> string list" where
  "bfsRest adj listed level 0 = level"
| "bfsRest adj listed level (Suc k) =
     level @ bfsRest adj (listed \<union> set (nextLevel adj listed level))
               (nextLevel adj listed level) k"

definition bfsOrder :: "(string \<times> string list) list \<Rightarrow> string \<Rightarrow> string list" where
  "bfsOrder adj s = bfsRest adj {s} [s] (Suc maxSteps)"

subsection \<open>A site with a branch\<close>

text \<open>The landing page links to an offer page and to a payment page; the offer page
  links to a second payment page.\<close>

definition branchSite :: "PageFinding list" where
  "branchSite =
     [examplePage ''https://a.com/lp'' 20 [] [''https://a.com/offer'', ''https://a.com/pay1''],
      examplePage ''https://a.com/offer'' 20 [] [''https://a.com/pay2''],
      examplePage ''https://a.com/pay1'' 20 [] [],
      examplePage ''https://a.com/pay2'' 20 [] []]"

definition funnelToPay1 :: FunnelPath where
  "funnelToPay1 =
     \<lparr>landing = ''https://a.com/lp'', steps = [''https://a.com/pay1''],
      conversion = ''https://a.com/pay1'', confidence = 70\<rparr>"

definition funnelToPay2 :: FunnelPath where
  "funnelToPay2 =
     \<lparr>landing = ''https://a.com/offer'', steps = [''https://a.com/pay2''],
      conversion = ''https://a.com/pay2'', confidence = 70\<rparr>"

subsection \<open>Invariants relating the search to the breadth-first order\<close>

text \<open>
  \<open>remainder\<close> is what is left of the breadth-first order when \<open>cur\<close> is left of the
  current level and \<open>nxt\<close> is the part of the next level found so far. \<open>order_inv\<close>
  says that the nodes dequeued so far, followed by that remainder, are the
  breadth-first order; \<open>edge_inv\<close> that every parent pointer is a link of the adjacency
  from a node that was expanded.
\<close>

fun remainder ::
  "(string \<times> string list) list \<Rightarrow> string set \<Rightarrow> string list \<Rightarrow> string list \<Rightarrow> nat
     \<Rightarrow> string list" where
  "remainder adj listed cur nxt 0 = cur"
| "remainder adj listed cur nxt (Suc k) =
     cur @ bfsRest adj (listed \<union> set (nextLevel adj listed cur))
             (nxt @ nextLevel adj listed cur) k"

definition order_inv :: "(string \<times> string list) list \<Rightarrow> string \<Rightarrow> bfs_state \<Rightarrow> bool" where
  "order_inv adj s st \<longleftrightarrow>
     (\<exists>cur nxt j. queue st = cur @ nxt
        \<and> (\<forall>m \<in> set cur. depthGet (depth st) m = j)
        \<and> (\<forall>m \<in> set nxt. depthGet (depth st) m = Suc j)
        \<and> j \<le> Suc maxSteps \<and> (j = Suc maxSteps \<longrightarrow> nxt = [])
        \<and> bfsOrder adj s = dequeued st @ remainder adj (visited st) cur nxt (Suc maxSteps - j))"

definition edge_inv ::
  "url_parser \<Rightarrow> (string \<times> string list) list \<Rightarrow> string \<Rightarrow> bfs_state \<Rightarrow> bool" where
  "edge_inv P adj s st \<longleftrightarrow>
     (\<forall>n \<in> visited st. n \<noteq> s \<longrightarrow>
        (\<exists>p. parent st n = Some (Some p) \<and> n \<in> set (adjGet adj p)
             \<and> (p = s \<or> isProbablyConversion P p = Inr False)))"

section \<open>Properties\<close>

subsection \<open>URL policy and robots policy\<close>

lemma disallowLoop_iff:
  "disallowLoop path ds \<longleftrightarrow> \<not> (\<exists>dis \<in> set ds. dis \<noteq> [] \<and> prefix dis path)"
  by (induction ds) auto

text \<open>
  C7 (as amended). When both strings parse, \<open>isAllowedByRobots\<close> returns \<open>false\<close> for
  every off-origin candidate whatever the rules hold, and for a same-origin candidate
  it returns \<open>false\<close> exactly when the candidate's path (\<open>/\<close> for an empty pathname)
  starts with at least one non-empty entry of \<open>rules.disallow\<close>, by plain string
  prefix. Empty entries are skipped by the guard \<open>if (!dis) continue\<close>.
\<close>

theorem isAllowedByRobots_prefix:
  assumes "parseURL baseUrl = Some ub" and "parseURL candidateUrl = Some uc"
  shows "isAllowedByRobots parseURL baseUrl rules candidateUrl =
           Inr (protocol ub = protocol uc \<and> host ub = host uc \<and>
                \<not> (\<exists>dis \<in> set (disallow rules). dis \<noteq> [] \<and>
                       prefix dis (if pathname uc = [] then ''/'' else pathname uc)))"
  using assms by (auto simp add: isAllowedByRobots_def sameOrigin_def disallowLoop_iff)

lemma plain_a_root: "plainParseURL ''https://a.com/'' =
    Some \<lparr>protocol = ''https:'', host = ''a.com'', pathname = ''/'', searchParams = [], hash = []\<rparr>"
  by (simp add: plainParseURL_def plainParseAfter_def)

lemma plain_a_admin: "plainParseURL ''https://a.com/admin/x'' =
    Some \<lparr>protocol = ''https:'', host = ''a.com'', pathname = ''/admin/x'', searchParams = [], hash = []\<rparr>"
  by (simp add: plainParseURL_def plainParseAfter_def)

theorem isAllowedByRobots_prefix_witness:
  "plainParseURL ''https://a.com/'' \<noteq> None \<and> plainParseURL ''https://a.com/admin/x'' \<noteq> None \<and>
   isAllowedByRobots plainParseURL ''https://a.com/''
      \<lparr>sitemaps = [], disallow = ['''', ''/admin'']\<rparr> ''https://a.com/admin/x'' = Inr False"
  using isAllowedByRobots_prefix [of plainParseURL "''https://a.com/''" _ "''https://a.com/admin/x''" _
      "\<lparr>sitemaps = [], disallow = ['''', ''/admin'']\<rparr>"]
  by (simp add: plain_a_root plain_a_admin)

text \<open>
  C7 as stated fails on rules that record the empty prefix: every path starts with the
  empty string, the candidate is same-origin, and the function still returns \<open>true\<close>.
\<close>

theorem isAllowedByRobots_empty_prefix_counterexample:
  "isAllowedByRobots plainParseURL ''https://a.com/''
      \<lparr>sitemaps = [], disallow = ['''']\<rparr> ''https://a.com/admin/x'' = Inr True
   \<and> sameOrigin plainParseURL ''https://a.com/'' ''https://a.com/admin/x'' = Inr True
   \<and> '''' \<in> set (disallow \<lparr>sitemaps = [], disallow = ['''']\<rparr>)
   \<and> prefix '''' (pathname (the (plainParseURL ''https://a.com/admin/x'')))"
  by (simp add: isAllowedByRobots_def sameOrigin_def plain_a_root plain_a_admin)

lemma fold_delete:
  "fold searchParams_delete ks u =
     u\<lparr>searchParams := filter (\<lambda>kv. fst kv \<notin> set ks) (searchParams u)\<rparr>"
proof (induction ks arbitrary: u)
  case Nil
  show ?case by simp
next
  case (Cons k ks)
  have "fold searchParams_delete (k # ks) u = fold searchParams_delete ks (searchParams_delete k u)"
    by simp
  also have "\<dots> = (searchParams_delete k u)\<lparr>searchParams :=
      filter (\<lambda>kv. fst kv \<notin> set ks) (searchParams (searchParams_delete k u))\<rparr>"
    by (rule Cons.IH)
  also have "\<dots> = u\<lparr>searchParams := filter (\<lambda>kv. fst kv \<notin> set (k # ks)) (searchParams u)\<rparr>"
    by (simp add: searchParams_delete_def conj_commute)
  finally show ?case .
qed

lemma fold_delete_idem:
  "fold searchParams_delete ks (fold searchParams_delete ks u) = fold searchParams_delete ks u"
  by (simp add: fold_delete)

text \<open>
  C8. For a string \<open>s\<close> that parses as an absolute URL, \<open>stripUtm s\<close> returns a string
  \<open>t\<close> whose query holds none of the thirteen denylisted keys, \<open>stripUtm t = t\<close>, and the
  query pairs of \<open>t\<close> are the pairs of \<open>s\<close> with a key outside the denylist, in their
  original order. What the output string holds is read back with the platform parser;
  the second hypothesis is the platform's round trip (parsing the serialisation of the
  stripped URL object gives that object back).
\<close>

theorem stripUtm_removes_idempotent_order:
  assumes p: "parseURL s = Some u"
    and rt: "parseURL (toString (fold searchParams_delete utmKeys u))
               = Some (fold searchParams_delete utmKeys u)"
  shows "\<exists>t v. stripUtm parseURL toString s = Inr t \<and> parseURL t = Some v
           \<and> (\<forall>k \<in> set utmKeys. k \<notin> fst ` set (searchParams v))
           \<and> stripUtm parseURL toString t = Inr t
           \<and> searchParams v = filter (\<lambda>kv. fst kv \<notin> set utmKeys) (searchParams u)"
proof -
  let ?v = "fold searchParams_delete utmKeys u"
  have 1: "stripUtm parseURL toString s = Inr (toString ?v)"
    using p by (simp add: stripUtm_def)
  have 2: "stripUtm parseURL toString (toString ?v) = Inr (toString ?v)"
    using rt by (simp add: stripUtm_def fold_delete_idem)
  have 3: "searchParams ?v = filter (\<lambda>kv. fst kv \<notin> set utmKeys) (searchParams u)"
    by (simp add: fold_delete)
  have 4: "\<forall>k \<in> set utmKeys. k \<notin> fst ` set (searchParams ?v)"
    unfolding 3 by auto
  show ?thesis using 1 2 3 4 rt by blast
qed

lemma plain_lp_q: "plainParseURL ''https://a.com/lp?b=2&utm_source=x&a=1&gclid=z&b=3'' =
    Some \<lparr>protocol = ''https:'', host = ''a.com'', pathname = ''/lp'',
      searchParams = [(''b'',''2''), (''utm_source'',''x''), (''a'',''1''), (''gclid'',''z''), (''b'',''3'')], hash = []\<rparr>"
  by (simp add: plainParseURL_def plainParseAfter_def pairOf_def)

lemma plain_lp_rt:
  "plainParseURL (plainToString (fold searchParams_delete utmKeys
      \<lparr>protocol = ''https:'', host = ''a.com'', pathname = ''/lp'',
      searchParams = [(''b'',''2''), (''utm_source'',''x''), (''a'',''1''), (''gclid'',''z''), (''b'',''3'')], hash = []\<rparr>))
   = Some (fold searchParams_delete utmKeys
      \<lparr>protocol = ''https:'', host = ''a.com'', pathname = ''/lp'',
      searchParams = [(''b'',''2''), (''utm_source'',''x''), (''a'',''1''), (''gclid'',''z''), (''b'',''3'')], hash = []\<rparr>)"
  by (simp add: plainParseURL_def plainParseAfter_def pairOf_def utmKeys_def
        searchParams_delete_def plainToString_def)

theorem stripUtm_removes_idempotent_order_witness:
  "stripUtm plainParseURL plainToString ''https://a.com/lp?b=2&utm_source=x&a=1&gclid=z&b=3''
     = Inr ''https://a.com/lp?b=2&a=1&b=3''
   \<and> (\<exists>t v. stripUtm plainParseURL plainToString
              ''https://a.com/lp?b=2&utm_source=x&a=1&gclid=z&b=3'' = Inr t
          \<and> plainParseURL t = Some v
          \<and> stripUtm plainParseURL plainToString t = Inr t
          \<and> searchParams v = [(''b'',''2''), (''a'',''1''), (''b'',''3'')])"
proof -
  have e: "stripUtm plainParseURL plainToString ''https://a.com/lp?b=2&utm_source=x&a=1&gclid=z&b=3''
     = Inr ''https://a.com/lp?b=2&a=1&b=3''"
    by (simp add: stripUtm_def plain_lp_q utmKeys_def searchParams_delete_def plainToString_def)
  from stripUtm_removes_idempotent_order [of plainParseURL _ _ plainToString, OF plain_lp_q plain_lp_rt]
  obtain t v where
    "stripUtm plainParseURL plainToString ''https://a.com/lp?b=2&utm_source=x&a=1&gclid=z&b=3'' = Inr t"
    "plainParseURL t = Some v" "stripUtm plainParseURL plainToString t = Inr t"
    "searchParams v = filter (\<lambda>kv. fst kv \<notin> set utmKeys)
        [(''b'',''2''), (''utm_source'',''x''), (''a'',''1''), (''gclid'',''z''), (''b'',''3'')]"
    by auto
  moreover have "filter (\<lambda>kv. fst kv \<notin> set utmKeys)
        [(''b'',''2''), (''utm_source'',''x''), (''a'',''1''), (''gclid'',''z''), (''b'',''3'')]
        = [(''b'',''2''), (''a'',''1''), (''b'',''3'')]"
    by (simp add: utmKeys_def)
  ultimately show ?thesis using e by auto
qed

text \<open>
  C10. \<open>stripUtm\<close> and \<open>sameOrigin\<close> are partial: on a string the \<open>URL\<close> constructor
  rejects, \<open>stripUtm\<close> throws, and \<open>sameOrigin\<close> throws when either argument is such a
  string. The empty string and a relative path are such strings.
\<close>

theorem url_functions_throw_on_unparsable:
  assumes "parseURL s = None"
  shows "stripUtm parseURL toString s = Inl TypeError
       \<and> sameOrigin parseURL s b = Inl TypeError
       \<and> sameOrigin parseURL a s = Inl TypeError"
  using assms by (simp add: stripUtm_def sameOrigin_def split: option.splits)


theorem url_functions_throw_on_unparsable_witness:
  "plainParseURL '''' = None
   \<and> stripUtm plainParseURL plainToString '''' = Inl TypeError
   \<and> sameOrigin plainParseURL '''' ''https://a.com/'' = Inl TypeError
   \<and> sameOrigin plainParseURL ''https://a.com/'' '''' = Inl TypeError
   \<and> plainParseURL ''/pricing'' = None
   \<and> stripUtm plainParseURL plainToString ''/pricing'' = Inl TypeError
   \<and> sameOrigin plainParseURL ''/pricing'' ''https://a.com/'' = Inl TypeError
   \<and> sameOrigin plainParseURL ''https://a.com/'' ''/pricing'' = Inl TypeError"
proof -
  have e: "plainParseURL '''' = None" by (simp add: plainParseURL_def)
  have r: "plainParseURL ''/pricing'' = None" by (simp add: plainParseURL_def)
  show ?thesis
    using e r
      url_functions_throw_on_unparsable [of plainParseURL "''''" plainToString
        "''https://a.com/''" "''https://a.com/''"]
      url_functions_throw_on_unparsable [of plainParseURL "''/pricing''" plainToString
        "''https://a.com/''" "''https://a.com/''"]
    by simp
qed

subsection \<open>The breadth-first search of the funnel builder\<close>

lemma depthGet_upd_other: "n \<noteq> x \<Longrightarrow> depthGet (dm(x \<mapsto> k)) n = depthGet dm n"
  by (simp add: depthGet_def)

lemma depthGet_upd_same: "depthGet (dm(x \<mapsto> k)) x = k"
  by (simp add: depthGet_def)

lemma expand_inv_step:
  assumes inv: "expand_inv P adj s cur d st"
    and new: "nxt \<notin> visited st" and node: "nxt \<in> adjNodes adj"
  shows "expand_inv P adj s cur d
           (st\<lparr>visited := insert nxt (visited st),
               parent := (parent st)(nxt \<mapsto> Some cur),
               depth := (depth st)(nxt \<mapsto> d + 1),
               queue := queue st @ [nxt]\<rparr>)"
proof -
  let ?dm = "(depth st)(nxt \<mapsto> d + 1)"
  have old: "\<And>n. n \<in> visited st \<Longrightarrow> depthGet ?dm n = depthGet (depth st) n"
    using new by (intro depthGet_upd_other) auto
  have oldp: "\<And>n. n \<in> visited st \<Longrightarrow> ((parent st)(nxt \<mapsto> Some cur)) n = parent st n"
    using new by auto
  have nw: "depthGet ?dm nxt = d + 1" by (rule depthGet_upd_same)
  have q: "set (queue st) \<subseteq> visited st" and dq: "set (dequeued st) \<subseteq> visited st"
    and sv: "s \<in> visited st" and cv: "cur \<in> visited st"
    using inv by (simp_all add: expand_inv_def)
  have mq: "map (depthGet ?dm) (queue st) = map (depthGet (depth st)) (queue st)"
    using q old by (intro map_cong) auto
  have qb: "\<forall>m \<in> set (queue st). d \<le> depthGet (depth st) m \<and> depthGet (depth st) m \<le> d + 1"
    using inv by (simp add: expand_inv_def)
  have c1: "depthGet ?dm cur = d" using old [OF cv] inv by (simp add: expand_inv_def)
  have c2: "depthGet ?dm s = 0" using old [OF sv] inv by (simp add: expand_inv_def)
  have c3: "insert nxt (visited st) \<subseteq> insert s (adjNodes adj)"
    using inv node by (auto simp: expand_inv_def)
  have c4: "\<forall>n \<in> insert nxt (visited st). n \<noteq> s \<longrightarrow>
         (\<exists>p. ((parent st)(nxt \<mapsto> Some cur)) n = Some (Some p) \<and> p \<in> insert nxt (visited st)
              \<and> depthGet ?dm n = depthGet ?dm p + 1)"
  proof (intro ballI impI)
    fix n assume n: "n \<in> insert nxt (visited st)" and ns: "n \<noteq> s"
    show "\<exists>p. ((parent st)(nxt \<mapsto> Some cur)) n = Some (Some p) \<and> p \<in> insert nxt (visited st)
              \<and> depthGet ?dm n = depthGet ?dm p + 1"
    proof (cases "n = nxt")
      case True
      then show ?thesis using cv c1 nw by auto
    next
      case False
      then have nv: "n \<in> visited st" using n by simp
      then obtain p where p: "parent st n = Some (Some p)" "p \<in> visited st"
          "depthGet (depth st) n = depthGet (depth st) p + 1"
        using inv ns unfolding expand_inv_def by blast
      then show ?thesis using old [OF nv] old [OF p(2)] oldp [OF nv] by auto
    qed
  qed
  have s0: "sorted (map (depthGet (depth st)) (queue st))"
    using inv by (simp add: expand_inv_def)
  have "sorted (map (depthGet ?dm) (queue st) @ [depthGet ?dm nxt])"
    unfolding mq nw using s0 qb by (simp add: sorted_append)
  then have c5: "sorted (map (depthGet ?dm) (queue st @ [nxt]))" by simp
  have c6: "\<forall>m \<in> set (queue st @ [nxt]). d \<le> depthGet ?dm m \<and> depthGet ?dm m \<le> d + 1"
    using qb q old nw by auto
  have olddq: "\<And>n. n \<in> set (dequeued st) \<Longrightarrow> depthGet ?dm n = depthGet (depth st) n"
    using dq old by blast
  have c7: "\<forall>n \<in> set (dequeued st). depthGet ?dm n \<le> d"
  proof (intro ballI)
    fix n assume n: "n \<in> set (dequeued st)"
    have "depthGet (depth st) n \<le> d" using inv n unfolding expand_inv_def by blast
    then show "depthGet ?dm n \<le> d" unfolding olddq [OF n] .
  qed
  have c8: "\<forall>n \<in> set (dequeued st). depthGet ?dm n \<le> maxSteps \<longrightarrow>
         n = s \<or> isProbablyConversion P n = Inr False"
  proof (intro ballI)
    fix n assume n: "n \<in> set (dequeued st)"
    have "depthGet (depth st) n \<le> maxSteps \<longrightarrow> n = s \<or> isProbablyConversion P n = Inr False"
      using inv n unfolding expand_inv_def by blast
    then show "depthGet ?dm n \<le> maxSteps \<longrightarrow> n = s \<or> isProbablyConversion P n = Inr False"
      unfolding olddq [OF n] .
  qed
  show ?thesis
    unfolding expand_inv_def
    using sv cv q dq c1 c2 c3 c4 c5 c6 c7 c8 by (simp add: subset_insertI2)
qed

lemma expandLoop_inv:
  "expand_inv P adj s cur d st \<Longrightarrow> set ns \<subseteq> adjNodes adj
     \<Longrightarrow> expand_inv P adj s cur d (expandLoop cur d ns st)"
proof (induction ns arbitrary: st)
  case Nil
  then show ?case by simp
next
  case (Cons nxt rest)
  show ?case
  proof (cases "nxt \<in> visited st")
    case True
    then show ?thesis using Cons by simp
  next
    case False
    have "expand_inv P adj s cur d
           (st\<lparr>visited := insert nxt (visited st),
               parent := (parent st)(nxt \<mapsto> Some cur),
               depth := (depth st)(nxt \<mapsto> d + 1),
               queue := queue st @ [nxt]\<rparr>)"
      using Cons.prems False by (intro expand_inv_step) auto
    then show ?thesis using Cons.IH Cons.prems(2) False by simp
  qed
qed

lemma bfs_inv_init: "bfs_inv P adj s (bfsInit s)"
  by (simp add: bfs_inv_def bfsInit_def depthGet_def)

lemma bfs_inv_tree: "bfs_inv P adj s st \<Longrightarrow> tree_inv adj s st"
  by (simp add: bfs_inv_def tree_inv_def)

lemma sorted_map_hd_le:
  "sorted (map f (x # xs)) \<Longrightarrow> m \<in> set xs \<Longrightarrow> f x \<le> f m"
  by auto

lemma dequeue_expand_inv:
  assumes inv: "bfs_inv P adj s st" and q: "queue st = cur # rest"
    and chk: "cur = s \<or> isProbablyConversion P cur = Inr False
              \<or> maxSteps < depthGet (depth st) cur"
  shows "expand_inv P adj s cur (depthGet (depth st) cur)
           (st\<lparr>queue := rest, dequeued := dequeued st @ [cur]\<rparr>)"
proof -
  let ?dg = "depthGet (depth st)"
  have srt: "sorted (map ?dg (cur # rest))" using inv q by (simp add: bfs_inv_def)
  have lo: "\<forall>m \<in> set rest. ?dg cur \<le> ?dg m" using srt by auto
  have hi: "\<forall>m \<in> set rest. ?dg m \<le> ?dg cur + 1"
    using inv q by (simp add: bfs_inv_def)
  have dq: "\<forall>n \<in> set (dequeued st). ?dg n \<le> ?dg cur"
    using inv q by (simp add: bfs_inv_def)
  have cv: "cur \<in> visited st" using inv q by (simp add: bfs_inv_def)
  have c9: "\<forall>n \<in> set (dequeued st @ [cur]). ?dg n \<le> maxSteps \<longrightarrow>
         n = s \<or> isProbablyConversion P n = Inr False"
    using inv chk by (auto simp: bfs_inv_def)
  have rest_v: "set rest \<subseteq> visited st" using inv q by (auto simp: bfs_inv_def)
  have srt': "sorted (map ?dg rest)" using srt by simp
  show ?thesis
    unfolding expand_inv_def
    using inv lo hi dq cv c9 rest_v srt'
    by (simp add: bfs_inv_def)
qed

lemma expand_inv_bfs_inv:
  assumes "expand_inv P adj s cur d st"
  shows "bfs_inv P adj s st"
proof -
  have b: "\<forall>m \<in> set (queue st). d \<le> depthGet (depth st) m \<and> depthGet (depth st) m \<le> d + 1"
    and dq: "\<forall>n \<in> set (dequeued st). depthGet (depth st) n \<le> d"
    using assms by (simp_all add: expand_inv_def)
  have h: "\<forall>m \<in> set (queue st). depthGet (depth st) m \<le> depthGet (depth st) (hd (queue st)) + 1"
  proof (cases "queue st")
    case Nil
    then show ?thesis by simp
  next
    case (Cons a as)
    then have "d \<le> depthGet (depth st) a" using b by simp
    then show ?thesis using b Cons by fastforce
  qed
  have o: "\<forall>n \<in> set (dequeued st). \<forall>m \<in> set (queue st).
         depthGet (depth st) n \<le> depthGet (depth st) m"
    using b dq by (meson le_trans)
  show ?thesis
    unfolding bfs_inv_def using assms h o by (simp add: expand_inv_def)
qed

lemma bfs_step_inv:
  assumes "bfs_inv P adj s st" and "queue st = cur # rest"
    and "cur = s \<or> isProbablyConversion P cur = Inr False
              \<or> maxSteps < depthGet (depth st) cur"
  shows "bfs_inv P adj s (expandLoop cur (depthGet (depth st) cur) (adjGet adj cur)
           (st\<lparr>queue := rest, dequeued := dequeued st @ [cur]\<rparr>))"
  using expand_inv_bfs_inv [OF expandLoop_inv [OF dequeue_expand_inv [OF assms] adjGet_subset]] .

lemma bfs_skip_inv:
  assumes "bfs_inv P adj s st" and "queue st = cur # rest"
    and "maxSteps < depthGet (depth st) cur"
  shows "bfs_inv P adj s (st\<lparr>queue := rest, dequeued := dequeued st @ [cur]\<rparr>)"
  using expand_inv_bfs_inv [OF dequeue_expand_inv [OF assms(1,2)]] assms(3) by blast

lemma bfs_found_post:
  assumes inv: "bfs_inv P adj s st" and q: "queue st = cur # rest"
    and d: "\<not> maxSteps < depthGet (depth st) cur"
    and ne: "cur \<noteq> s" and conv: "isProbablyConversion P cur = Inr True"
  shows "bfs_post P adj s cur (st\<lparr>queue := rest, dequeued := dequeued st @ [cur]\<rparr>)"
proof -
  let ?dg = "depthGet (depth st)"
  have cv: "cur \<in> visited st" using inv q by (simp add: bfs_inv_def)
  have "\<forall>n \<in> set (dequeued st). ?dg n \<le> ?dg cur"
    using inv q by (simp add: bfs_inv_def)
  then have "\<forall>n \<in> set (dequeued st). ?dg n \<le> maxSteps" using d by fastforce
  moreover have "\<forall>n \<in> set (dequeued st). ?dg n \<le> maxSteps \<longrightarrow>
         n = s \<or> isProbablyConversion P n = Inr False"
    using inv by (simp add: bfs_inv_def)
  ultimately have pre: "\<forall>n \<in> set (dequeued st). n = s \<or> isProbablyConversion P n = Inr False"
    by blast
  have t: "tree_inv adj s (st\<lparr>queue := rest, dequeued := dequeued st @ [cur]\<rparr>)"
    using bfs_inv_tree [OF inv] by (simp add: tree_inv_def)
  show ?thesis
    unfolding bfs_post_def using ne conv cv d t pre by simp
qed

declare bfsLoop.simps [simp del]

lemma bfsLoop_unfold:
  assumes "queue st = cur # rest"
  shows "bfsLoop P adj s st =
     (if maxSteps < depthGet (depth st) cur
      then bfsLoop P adj s (st\<lparr>queue := rest, dequeued := dequeued st @ [cur]\<rparr>)
      else if cur \<noteq> s then
        (case isProbablyConversion P cur of
           Inl e \<Rightarrow> Inl e
         | Inr b \<Rightarrow>
            if b then Inr (Some cur, st\<lparr>queue := rest, dequeued := dequeued st @ [cur]\<rparr>)
            else bfsLoop P adj s (expandLoop cur (depthGet (depth st) cur) (adjGet adj cur)
                   (st\<lparr>queue := rest, dequeued := dequeued st @ [cur]\<rparr>)))
      else bfsLoop P adj s (expandLoop cur (depthGet (depth st) cur) (adjGet adj cur)
                   (st\<lparr>queue := rest, dequeued := dequeued st @ [cur]\<rparr>)))"
  by (subst bfsLoop.simps) (simp add: assms Let_def split: sum.splits bool.splits)

lemma bfsLoop_Nil: "queue st = [] \<Longrightarrow> bfsLoop P adj s st = Inr (None, st)"
  by (subst bfsLoop.simps) simp

lemma bfsLoop_found:
  "bfs_inv P adj s st \<Longrightarrow> bfsLoop P adj s st = Inr (Some conv, st')
     \<Longrightarrow> bfs_post P adj s conv st'"
proof (induction P adj s st rule: bfsLoop.induct)
  case (1 P adj s st)
  show ?case
  proof (cases "queue st")
    case Nil
    then show ?thesis using "1.prems"(2) by (simp add: bfsLoop_Nil)
  next
    case (Cons cur rest)
    let ?st1 = "st\<lparr>queue := rest, dequeued := dequeued st @ [cur]\<rparr>"
    let ?d = "depthGet (depth st) cur"
    note u = bfsLoop_unfold [OF Cons, of P adj s]
    show ?thesis
    proof (cases "maxSteps < ?d")
      case True
      have r: "bfsLoop P adj s ?st1 = Inr (Some conv, st')"
        using "1.prems"(2) True u by simp
      show ?thesis
        using "1.IH"(1) [OF Cons refl refl True bfs_skip_inv [OF "1.prems"(1) Cons True] r] .
    next
      case False
      show ?thesis
      proof (cases "cur = s")
        case True
        have r: "bfsLoop P adj s (expandLoop cur ?d (adjGet adj cur) ?st1) = Inr (Some conv, st')"
          using "1.prems"(2) True False u by simp
        have i: "bfs_inv P adj s (expandLoop cur ?d (adjGet adj cur) ?st1)"
          using bfs_step_inv [OF "1.prems"(1) Cons] True by blast
        show ?thesis using "1.IH"(3) [OF Cons refl refl False _ i r] True by simp
      next
        case ne: False
        show ?thesis
        proof (cases "isProbablyConversion P cur")
          case (Inl e)
          then show ?thesis using "1.prems"(2) ne False u by simp
        next
          case (Inr b)
          show ?thesis
          proof (cases b)
            case True
            then have e: "cur = conv \<and> ?st1 = st'"
              using "1.prems"(2) ne False u Inr by auto
            have "conv = cur" using e by blast
            moreover have "st' = ?st1" using e by blast
            ultimately have "conv = cur" "st' = ?st1" by blast+
            then show ?thesis
              using bfs_found_post [OF "1.prems"(1) Cons False ne] Inr True by simp
          next
            case bf: False
            have r: "bfsLoop P adj s (expandLoop cur ?d (adjGet adj cur) ?st1)
                       = Inr (Some conv, st')"
              using "1.prems"(2) ne False u Inr bf by simp
            have i: "bfs_inv P adj s (expandLoop cur ?d (adjGet adj cur) ?st1)"
              using bfs_step_inv [OF "1.prems"(1) Cons] Inr bf by simp
            show ?thesis using "1.IH"(2) [OF Cons refl refl False ne Inr _ i r] bf by simp
          qed
        qed
      qed
    qed
  qed
qed

lemma walkParents_None: "walkParents par s None acc = Some acc"
  by (subst walkParents.simps) simp

lemma walkParents_stop: "c = [] \<or> c = s \<Longrightarrow> walkParents par s (Some c) acc = Some acc"
  by (subst walkParents.simps) simp

lemma walkParents_go:
  "c \<noteq> [] \<Longrightarrow> c \<noteq> s \<Longrightarrow>
   walkParents par s (Some c) acc = walkParents par s (orNull (par c)) (acc @ [c])"
  by (subst walkParents.simps) simp

lemma walkParents_tree:
  assumes t: "tree_inv adj s st"
  shows "n \<in> visited st \<Longrightarrow> depthGet (depth st) n = k \<Longrightarrow>
         \<exists>path. walkParents (parent st) s (Some n) acc = Some (acc @ path)
              \<and> length path \<le> k \<and> set path \<subseteq> visited st - {s}
              \<and> (n \<noteq> [] \<and> n \<noteq> s \<longrightarrow> path \<noteq> [] \<and> hd path = n)"
proof (induction k arbitrary: n acc)
  case 0
  have "n = s"
  proof (rule ccontr)
    assume "n \<noteq> s"
    then obtain p where "depthGet (depth st) n = depthGet (depth st) p + 1"
      using t "0.prems"(1) unfolding tree_inv_def by blast
    then show False using "0.prems"(2) by simp
  qed
  then have "walkParents (parent st) s (Some n) acc = Some (acc @ [])"
    by (simp add: walkParents_stop)
  then show ?case using \<open>n = s\<close> by fastforce
next
  case (Suc k)
  show ?case
  proof (cases "n = [] \<or> n = s")
    case True
    then have "walkParents (parent st) s (Some n) acc = Some (acc @ [])"
      by (simp add: walkParents_stop)
    then show ?thesis using True by fastforce
  next
    case False
    then have ne: "n \<noteq> []" and ns: "n \<noteq> s" by simp_all
    obtain p where p: "parent st n = Some (Some p)" "p \<in> visited st"
        "depthGet (depth st) n = depthGet (depth st) p + 1"
      using t Suc.prems(1) ns unfolding tree_inv_def by blast
    have dp: "depthGet (depth st) p = k" using p(3) Suc.prems(2) by simp
    have go: "walkParents (parent st) s (Some n) acc
              = walkParents (parent st) s (orNull (Some (Some p))) (acc @ [n])"
      using walkParents_go [OF ne ns, of "parent st" acc] p(1) by simp
    show ?thesis
    proof (cases "p = []")
      case True
      then have "walkParents (parent st) s (Some n) acc = Some (acc @ [n])"
        using go by (simp add: orNull_def walkParents_None)
      moreover have "length [n] \<le> Suc k" by simp
      moreover have "set [n] \<subseteq> visited st - {s}" using Suc.prems(1) ns by simp
      ultimately show ?thesis by (metis list.sel(1) not_Cons_self2)
    next
      case False
      then have go': "walkParents (parent st) s (Some n) acc
              = walkParents (parent st) s (Some p) (acc @ [n])"
        using go by (simp add: orNull_def)
      obtain path where path: "walkParents (parent st) s (Some p) (acc @ [n])
            = Some ((acc @ [n]) @ path)" "length path \<le> k" "set path \<subseteq> visited st - {s}"
        using Suc.IH [OF p(2) dp, of "acc @ [n]"] by blast
      have "walkParents (parent st) s (Some n) acc = Some (acc @ (n # path))"
        using go' path(1) by simp
      moreover have "length (n # path) \<le> Suc k" using path(2) by simp
      moreover have "set (n # path) \<subseteq> visited st - {s}"
        using path(3) Suc.prems(1) ns by simp
      ultimately show ?thesis by (metis list.sel(1) list.distinct(1))
    qed
  qed
qed

lemma funnelFrom_cases:
  "funnelFrom P byUrl adj start = Some (Inr None)
   \<or> (\<exists>e. funnelFrom P byUrl adj start = Some (Inl e))
   \<or> (\<exists>f. funnelFrom P byUrl adj start = Some (Inr (Some f)) \<and> funnel_ok P byUrl adj start f)"
proof (cases "score start < 18")
  case True
  then show ?thesis by (simp add: funnelFrom_def)
next
  case sc: False
  let ?s = "finalUrl start"
  show ?thesis
  proof (cases "isProbablyConversion P ?s")
    case (Inl e)
    then show ?thesis using sc by (simp add: funnelFrom_def)
  next
    case (Inr isConv)
    show ?thesis
    proof (cases isConv)
      case True
      then show ?thesis using sc Inr by (simp add: funnelFrom_def)
    next
      case nc: False
      show ?thesis
      proof (cases "bfsLoop P adj ?s (bfsInit ?s)")
        case (Inl e)
        then show ?thesis using sc Inr nc by (simp add: funnelFrom_def)
      next
        case bfs: (Inr r)
        obtain foundConv st where r: "r = (foundConv, st)" by (cases r)
        show ?thesis
        proof (cases foundConv)
          case None
          then show ?thesis using sc Inr nc bfs r by (simp add: funnelFrom_def)
        next
          case (Some conv)
          show ?thesis
          proof (cases "conv = []")
            case True
            then show ?thesis using sc Inr nc bfs r Some by (simp add: funnelFrom_def)
          next
            case cne: False
            have post: "bfs_post P adj ?s conv st"
              using bfsLoop_found [OF bfs_inv_init, of P adj ?s conv st] bfs r Some by simp
            then have t: "tree_inv adj ?s st" and cv: "conv \<in> visited st"
              and cs: "conv \<noteq> ?s" and cd: "depthGet (depth st) conv \<le> maxSteps"
              by (simp_all add: bfs_post_def)
            obtain path where path: "walkParents (parent st) ?s (Some conv) [] = Some ([] @ path)"
                "length path \<le> depthGet (depth st) conv" "set path \<subseteq> visited st - {?s}"
                "path \<noteq> []" "hd path = conv"
              using walkParents_tree [OF t cv refl, of "[]"] cne cs by blast
            let ?f = "\<lparr>landing = ?s, steps = rev path, conversion = conv,
                       confidence = mathRound (min 100
                         (of_int (score start * 2)
                          + of_int (case mapGet byUrl conv of None \<Rightarrow> 0 | Some cp \<Rightarrow> score cp)
                          + 10 / of_nat (length (rev path))))\<rparr>"
            have ff: "funnelFrom P byUrl adj start = Some (Inr (Some ?f))"
              using sc Inr nc bfs r Some cne path(1,4) by (simp add: funnelFrom_def Let_def)
            have "visited st \<subseteq> insert ?s (adjNodes adj)" using t by (simp add: tree_inv_def)
            then have sub: "set (rev path) \<subseteq> adjNodes adj" using path(3) by auto
            have lst: "last (rev path) = conv" using path(4,5) by (simp add: last_rev)
            have len: "length (rev path) \<le> maxSteps" using path(2) cd by simp
            have "funnel_ok P byUrl adj start ?f"
              unfolding funnel_ok_def
              using sc Inr nc bfs r Some post path(4) sub lst len by simp
            then show ?thesis using ff by blast
          qed
        qed
      qed
    qed
  qed
qed

lemma collectFunnels_ok:
  "(\<forall>f \<in> set acc. \<exists>start \<in> set pages0. funnel_ok P byUrl adj start f)
   \<Longrightarrow> set pages \<subseteq> set pages0
   \<Longrightarrow> (\<exists>e. collectFunnels P byUrl adj pages acc = Some (Inl e))
     \<or> (\<exists>fs. collectFunnels P byUrl adj pages acc = Some (Inr fs)
            \<and> (\<forall>f \<in> set fs. \<exists>start \<in> set pages0. funnel_ok P byUrl adj start f))"
proof (induction pages arbitrary: acc)
  case Nil
  then show ?case by simp
next
  case (Cons start rest)
  have rest: "set rest \<subseteq> set pages0" and sm: "start \<in> set pages0"
    using Cons.prems(2) by simp_all
  consider (skip) "funnelFrom P byUrl adj start = Some (Inr None)"
    | (err) e where "funnelFrom P byUrl adj start = Some (Inl e)"
    | (push) f where "funnelFrom P byUrl adj start = Some (Inr (Some f))"
        "funnel_ok P byUrl adj start f"
    using funnelFrom_cases [of P byUrl adj start] by blast
  then show ?case
  proof cases
    case skip
    then show ?thesis using Cons.IH [OF Cons.prems(1) rest] by simp
  next
    case err
    then show ?thesis by simp
  next
    case push
    have "\<forall>g \<in> set (acc @ [f]). \<exists>start \<in> set pages0. funnel_ok P byUrl adj start g"
      using Cons.prems(1) push(2) sm by auto
    then show ?thesis using Cons.IH [OF _ rest, of "acc @ [f]"] push(1) by simp
  qed
qed

lemma dedupeLoop_subset: "set (dedupeLoop seen fs) \<subseteq> set fs"
  by (induction fs arbitrary: seen) auto

text \<open>
  The path reconstruction returns for every parent map the search builds, so
  \<open>buildFunnels\<close> always returns: a list of funnels, or the \<open>TypeError\<close> of
  \<open>isProbablyConversion\<close>.
\<close>

lemma buildFunnels_returns:
  "(\<exists>e. buildFunnels P adPages = Some (Inl e)) \<or> (\<exists>fs. buildFunnels P adPages = Some (Inr fs))"
  using collectFunnels_ok [of "[]" adPages P "byUrlEntries adPages" "adjEntries adPages" adPages]
  by (auto simp: buildFunnels_def)

lemma buildFunnels_ok:
  assumes "buildFunnels P adPages = Some (Inr fs)" and "f \<in> set fs"
  shows "\<exists>start \<in> set adPages.
           funnel_ok P (byUrlEntries adPages) (adjEntries adPages) start f"
proof -
  obtain gs where gs: "collectFunnels P (byUrlEntries adPages) (adjEntries adPages) adPages []
        = Some (Inr gs)"
      "\<forall>g \<in> set gs. \<exists>start \<in> set adPages.
          funnel_ok P (byUrlEntries adPages) (adjEntries adPages) start g"
    using collectFunnels_ok [of "[]" adPages P "byUrlEntries adPages" "adjEntries adPages" adPages]
      assms(1) by (auto simp: buildFunnels_def)
  have "fs = dedupeLoop {} (sort_key (\<lambda>f. - confidence f) gs)"
    using assms(1) gs(1) by (simp add: buildFunnels_def)
  then have "f \<in> set gs" using assms(2) dedupeLoop_subset by fastforce
  then show ?thesis using gs(2) by blast
qed

lemma mapGet_byUrl_Some:
  "mapGet (byUrlEntries ps) u = Some p \<Longrightarrow> p \<in> set ps \<and> finalUrl p = u"
  unfolding mapGet_def byUrlEntries_def by (auto dest!: map_of_SomeD)

lemma mapGet_byUrl_dom:
  "mapGet (byUrlEntries ps) u \<noteq> None \<longleftrightarrow> u \<in> finalUrl ` set ps"
  unfolding mapGet_def byUrlEntries_def by (force simp: map_of_eq_None_iff)

lemma adjNodes_adjEntries: "adjNodes (adjEntries ps) \<subseteq> finalUrl ` set ps"
  unfolding adjNodes_def adjEntries_def adjList_def
  by (auto simp: Let_def mapGet_byUrl_dom [symmetric] simp del: not_None_eq)

lemma mathRound_mono: "x \<le> y \<Longrightarrow> mathRound x \<le> mathRound y"
  by (simp add: mathRound_def floor_mono)

lemma mathRound_of_int: "mathRound (of_int k) = k"
  unfolding mathRound_def by (rule floor_unique) simp_all

lemma mathRound_100: "mathRound 100 = 100"
  using mathRound_of_int [of 100] by simp

lemma mathRound_min: "mathRound (min 100 x) = min 100 (mathRound x)"
proof (cases "x \<le> 100")
  case True
  then have "mathRound x \<le> mathRound 100" by (rule mathRound_mono)
  then show ?thesis using True by (simp add: min_def mathRound_100)
next
  case False
  then have "mathRound 100 \<le> mathRound x" by (intro mathRound_mono) simp
  then show ?thesis using False by (simp add: min_def mathRound_100)
qed

lemma floor_rat_numeral_div: "\<lfloor>numeral a / numeral b :: rat\<rfloor> = numeral a div numeral b"
  by (metis floor_divide_of_int_eq of_int_numeral)

lemma exampleSite_funnels:
  "buildFunnels plainParseURL exampleSite = Some (Inr [funnelDirect, funnelViaOffer])"
  by code_simp

lemma funnel_ok_conversion_page:
  assumes "funnel_ok P (byUrlEntries adPages) (adjEntries adPages) start f"
  shows "\<exists>cp. mapGet (byUrlEntries adPages) (conversion f) = Some cp"
proof -
  have "conversion f \<in> set (steps f)" using assms by (metis funnel_ok_def last_in_set)
  then have "conversion f \<in> finalUrl ` set adPages"
    using assms adjNodes_adjEntries unfolding funnel_ok_def by blast
  then show ?thesis using mapGet_byUrl_dom [of adPages "conversion f"] by simp
qed

text \<open>
  C1 (as amended). Every funnel returned by \<open>buildFunnels\<close> has confidence
  \<open>min(100, round(2*landingScore + conversionScore + 10/(stepCount + 1)))\<close>, where
  \<open>landingScore\<close> is the score of the page the search started from, \<open>conversionScore\<close>
  the score of the page \<open>byUrl\<close> holds for the conversion URL, and \<open>stepCount\<close> the
  number of intermediate steps: the divisor is the length of the \<open>steps\<close> array, which
  ends with the conversion URL, so the bonus is 10 for a direct funnel, 5 with one
  intermediate step.
\<close>

theorem buildFunnels_confidence:
  assumes "buildFunnels P adPages = Some (Inr fs)" and "f \<in> set fs"
  shows "\<exists>start \<in> set adPages. \<exists>cp \<in> set adPages.
           finalUrl start = landing f \<and> finalUrl cp = conversion f
         \<and> mapGet (byUrlEntries adPages) (conversion f) = Some cp
         \<and> steps f = intermediateSteps f @ [conversion f]
         \<and> confidence f =
             min 100 (mathRound (2 * of_int (score start) + of_int (score cp)
                                  + 10 / of_nat (length (intermediateSteps f) + 1)))"
proof -
  obtain start where start: "start \<in> set adPages"
      "funnel_ok P (byUrlEntries adPages) (adjEntries adPages) start f"
    using buildFunnels_ok [OF assms] by blast
  obtain cp where cp: "mapGet (byUrlEntries adPages) (conversion f) = Some cp"
    using funnel_ok_conversion_page [OF start(2)] by blast
  have cpm: "cp \<in> set adPages" "finalUrl cp = conversion f"
    using mapGet_byUrl_Some [OF cp] by simp_all
  have ne: "steps f \<noteq> []" and lst: "last (steps f) = conversion f"
    using start(2) by (simp_all add: funnel_ok_def)
  have st: "steps f = intermediateSteps f @ [conversion f]"
    using ne lst unfolding intermediateSteps_def by (metis append_butlast_last_id)
  have len: "length (steps f) = length (intermediateSteps f) + 1"
    using arg_cong [OF st, of length] by simp
  have "confidence f = mathRound (min 100 (of_int (score start * 2) + of_int (score cp)
          + 10 / of_nat (length (steps f))))"
    using start(2) cp by (simp add: funnel_ok_def)
  then have "confidence f = min 100 (mathRound (2 * of_int (score start) + of_int (score cp)
          + 10 / of_nat (length (intermediateSteps f) + 1)))"
    unfolding len mathRound_min by (simp add: mult.commute)
  moreover have "finalUrl start = landing f" using start(2) by (simp add: funnel_ok_def)
  ultimately show ?thesis using start(1) cpm cp st by blast
qed

theorem buildFunnels_confidence_witness:
  "buildFunnels plainParseURL exampleSite = Some (Inr [funnelDirect, funnelViaOffer])
   \<and> funnelViaOffer \<in> set [funnelDirect, funnelViaOffer]
   \<and> (\<exists>start \<in> set exampleSite. \<exists>cp \<in> set exampleSite.
           finalUrl start = landing funnelViaOffer \<and> finalUrl cp = conversion funnelViaOffer
         \<and> mapGet (byUrlEntries exampleSite) (conversion funnelViaOffer) = Some cp
         \<and> steps funnelViaOffer = intermediateSteps funnelViaOffer @ [conversion funnelViaOffer]
         \<and> confidence funnelViaOffer =
             min 100 (mathRound (2 * of_int (score start) + of_int (score cp)
                                  + 10 / of_nat (length (intermediateSteps funnelViaOffer) + 1))))"
proof -
  have m: "funnelViaOffer \<in> set [funnelDirect, funnelViaOffer]" by simp
  show ?thesis
    using buildFunnels_confidence [OF exampleSite_funnels m] exampleSite_funnels m
    by blast
qed

text \<open>
  C1 as stated fails on a funnel with one intermediate step: the landing and the
  conversion page both score 20, the claim's formula with step count 1 gives
  \<open>min(100, round(40 + 20 + 10/1)) = 70\<close>, the funnel builder returns 65.
\<close>

theorem buildFunnels_confidence_counterexample:
  "buildFunnels plainParseURL exampleSite = Some (Inr [funnelDirect, funnelViaOffer])
   \<and> landing funnelViaOffer = ''https://a.com/lp''
   \<and> conversion funnelViaOffer = ''https://a.com/checkout''
   \<and> steps funnelViaOffer = [''https://a.com/offer'', ''https://a.com/checkout'']
   \<and> length (intermediateSteps funnelViaOffer) = 1
   \<and> confidence funnelViaOffer = 65
   \<and> specConfidence 20 20 (length (intermediateSteps funnelViaOffer)) = 70"
  using exampleSite_funnels
  by (simp add: funnelViaOffer_def intermediateSteps_def specConfidence_def mathRound_def
        floor_rat_numeral_div)

subsection \<open>Funnels of a run\<close>

lemma adLikeOf_subset: "set (adLikeOf checked) \<subseteq> {p \<in> set checked. 18 \<le> score p}"
proof -
  have "set (take 250 (filter (\<lambda>p. 18 \<le> score p) (sort_key (\<lambda>p. - score p) checked)))
        \<subseteq> set (filter (\<lambda>p. 18 \<le> score p) (sort_key (\<lambda>p. - score p) checked))"
    by (rule set_take_subset)
  then show ?thesis by (auto simp: adLikeOf_def)
qed

lemma run_report_funnels:
  assumes "runFunnelFinder_report P baseUrl checked = Some (Inr (adLikePages, fs, txt))"
  shows "adLikePages = adLikeOf checked \<and> buildFunnels P adLikePages = Some (Inr fs)
       \<and> txt = formatOutputText baseUrl adLikePages fs"
  using assms
  by (auto simp: runFunnelFinder_report_def Let_def split: option.splits sum.splits)

lemma exampleSite_adLike: "adLikeOf exampleSite = exampleSite"
  by code_simp

lemma exampleSite_report:
  "runFunnelFinder_report plainParseURL ''https://a.com/'' exampleSite
     = Some (Inr (exampleSite, [funnelDirect, funnelViaOffer],
          formatOutputText ''https://a.com/'' exampleSite [funnelDirect, funnelViaOffer]))"
  by (simp add: runFunnelFinder_report_def exampleSite_adLike exampleSite_funnels)

lemma newOf_disjoint: "set (newOf listed ms) \<inter> listed = {}"
  by (induction ms arbitrary: listed) auto

lemma newOf_subset: "set (newOf listed ms) \<subseteq> set ms"
  by (induction ms arbitrary: listed) auto

lemma expandLoop_queue: "queue (expandLoop c d ns st) = queue st @ newOf (visited st) ns"
  by (induction ns arbitrary: st) simp_all

lemma expandLoop_visited:
  "visited (expandLoop c d ns st) = visited st \<union> set (newOf (visited st) ns)"
  by (induction ns arbitrary: st) auto

lemma expandLoop_dequeued: "dequeued (expandLoop c d ns st) = dequeued st"
  by (induction ns arbitrary: st) simp_all

lemma expandLoop_depth:
  "depth (expandLoop c d ns st) m
     = (if m \<in> set (newOf (visited st) ns) then Some (d + 1) else depth st m)"
  by (induction ns arbitrary: st) auto

lemma expandLoop_parent:
  "parent (expandLoop c d ns st) m
     = (if m \<in> set (newOf (visited st) ns) then Some (Some c) else parent st m)"
  by (induction ns arbitrary: st) auto

lemma remainder_no_next: "remainder adj listed level [] k = bfsRest adj listed level k"
  by (cases k) simp_all

lemma order_inv_init: "order_inv adj s (bfsInit s)"
  unfolding order_inv_def
  by (rule exI [of _ "[s]"], rule exI [of _ "[]"], rule exI [of _ 0])
     (simp add: bfsInit_def depthGet_def bfsOrder_def)

lemma edge_inv_init: "edge_inv P adj s (bfsInit s)"
  by (simp add: edge_inv_def bfsInit_def)

lemma order_inv_head:
  assumes ord: "order_inv adj s st" and q: "queue st = c # rest"
  shows "\<exists>cur nxt. rest = cur @ nxt
        \<and> (\<forall>m \<in> set cur. depthGet (depth st) m = depthGet (depth st) c)
        \<and> (\<forall>m \<in> set nxt. depthGet (depth st) m = Suc (depthGet (depth st) c))
        \<and> depthGet (depth st) c \<le> Suc maxSteps
        \<and> (depthGet (depth st) c = Suc maxSteps \<longrightarrow> nxt = [])
        \<and> bfsOrder adj s = dequeued st
             @ remainder adj (visited st) (c # cur) nxt (Suc maxSteps - depthGet (depth st) c)"
proof -
  obtain cur nxt j where s: "queue st = cur @ nxt"
      and dc: "\<forall>m \<in> set cur. depthGet (depth st) m = j"
      and dn: "\<forall>m \<in> set nxt. depthGet (depth st) m = Suc j"
      and jb: "j \<le> Suc maxSteps" and je: "j = Suc maxSteps \<longrightarrow> nxt = []"
      and bo: "bfsOrder adj s = dequeued st @ remainder adj (visited st) cur nxt (Suc maxSteps - j)"
    using ord unfolding order_inv_def by blast
  show ?thesis
  proof (cases cur)
    case (Cons a cur')
    then have a: "a = c" and r: "rest = cur' @ nxt" using s q by simp_all
    have j: "depthGet (depth st) c = j" using dc Cons a by simp
    show ?thesis
      using r dc dn jb je bo unfolding j Cons a by auto
  next
    case Nil
    then have n: "nxt = c # rest" using s q by simp
    then have jl: "j \<le> maxSteps" using jb je by (cases "j = Suc maxSteps") auto
    have j: "depthGet (depth st) c = Suc j" using dn n by simp
    have k: "Suc maxSteps - j = Suc (maxSteps - j)" using jl by simp
    have "remainder adj (visited st) [] nxt (Suc maxSteps - j)
          = bfsRest adj (visited st) nxt (maxSteps - j)"
      unfolding k by simp
    also have "\<dots> = remainder adj (visited st) (c # rest) [] (Suc maxSteps - Suc j)"
      unfolding n by (simp add: remainder_no_next)
    finally have bo': "bfsOrder adj s = dequeued st
        @ remainder adj (visited st) (c # rest) [] (Suc maxSteps - Suc j)"
      using bo Nil by simp
    have "rest = rest @ []" by simp
    moreover have "\<forall>m \<in> set rest. depthGet (depth st) m = Suc j" using dn n by simp
    moreover have "Suc j \<le> Suc maxSteps" using jl by simp
    ultimately show ?thesis unfolding j using bo' by (metis empty_iff list.set(1))
  qed
qed

lemma order_inv_skip:
  assumes ord: "order_inv adj s st" and q: "queue st = c # rest"
    and d: "maxSteps < depthGet (depth st) c"
  shows "order_inv adj s (st\<lparr>queue := rest, dequeued := dequeued st @ [c]\<rparr>)"
proof -
  obtain cur nxt where r: "rest = cur @ nxt"
      and dc: "\<forall>m \<in> set cur. depthGet (depth st) m = depthGet (depth st) c"
      and jb: "depthGet (depth st) c \<le> Suc maxSteps"
      and je: "depthGet (depth st) c = Suc maxSteps \<longrightarrow> nxt = []"
      and bo: "bfsOrder adj s = dequeued st
             @ remainder adj (visited st) (c # cur) nxt (Suc maxSteps - depthGet (depth st) c)"
    using order_inv_head [OF ord q] by blast
  have j: "depthGet (depth st) c = Suc maxSteps" using d jb by simp
  then have n: "nxt = []" using je by simp
  have bo': "bfsOrder adj s = (dequeued st @ [c]) @ remainder adj (visited st) cur [] 0"
    using bo unfolding j n by simp
  show ?thesis
    unfolding order_inv_def
    apply (rule exI [of _ cur], rule exI [of _ "[]"], rule exI [of _ "Suc maxSteps"])
    using r n dc j bo' by simp
qed

lemma order_inv_expand:
  assumes inv: "bfs_inv P adj s st" and ord: "order_inv adj s st" and q: "queue st = c # rest"
    and d: "\<not> maxSteps < depthGet (depth st) c"
  shows "order_inv adj s (expandLoop c (depthGet (depth st) c) (adjGet adj c)
           (st\<lparr>queue := rest, dequeued := dequeued st @ [c]\<rparr>))"
proof -
  let ?j = "depthGet (depth st) c"
  let ?st1 = "st\<lparr>queue := rest, dequeued := dequeued st @ [c]\<rparr>"
  let ?st2 = "expandLoop c ?j (adjGet adj c) ?st1"
  let ?V = "visited st"
  let ?new = "newOf ?V (adjGet adj c)"
  obtain cur nxt where r: "rest = cur @ nxt"
      and dc: "\<forall>m \<in> set cur. depthGet (depth st) m = ?j"
      and dn: "\<forall>m \<in> set nxt. depthGet (depth st) m = Suc ?j"
      and bo: "bfsOrder adj s = dequeued st
             @ remainder adj ?V (c # cur) nxt (Suc maxSteps - ?j)"
    using order_inv_head [OF ord q] by blast
  have k: "Suc maxSteps - ?j = Suc (maxSteps - ?j)" using d by simp
  have qv: "set rest \<subseteq> ?V" using inv q by (auto simp: bfs_inv_def)
  have dis: "set ?new \<inter> ?V = {}" by (rule newOf_disjoint)
  have q2: "queue ?st2 = cur @ (nxt @ ?new)" by (simp add: expandLoop_queue r)
  have v2: "visited ?st2 = ?V \<union> set ?new" by (simp add: expandLoop_visited)
  have dq2: "dequeued ?st2 = dequeued st @ [c]" by (simp add: expandLoop_dequeued)
  have dg2: "depthGet (depth ?st2) m = (if m \<in> set ?new then Suc ?j else depthGet (depth st) m)"
    for m by (simp add: depthGet_def expandLoop_depth)
  have old: "depthGet (depth ?st2) m = depthGet (depth st) m" if "m \<in> set rest" for m
    using that qv dis dg2 by auto
  have c1: "\<forall>m \<in> set cur. depthGet (depth ?st2) m = ?j" using dc old r by simp
  have c2: "\<forall>m \<in> set (nxt @ ?new). depthGet (depth ?st2) m = Suc ?j"
    using dn old r dg2 by auto
  have "remainder adj ?V (c # cur) nxt (Suc (maxSteps - ?j))
        = c # remainder adj (?V \<union> set ?new) cur (nxt @ ?new) (Suc (maxSteps - ?j))"
    by (simp add: Un_assoc)
  then have c3: "bfsOrder adj s = dequeued ?st2
        @ remainder adj (visited ?st2) cur (nxt @ ?new) (Suc maxSteps - ?j)"
    using bo unfolding k v2 dq2 by simp
  have c4: "?j \<le> Suc maxSteps" "?j \<noteq> Suc maxSteps" using d by simp_all
  show ?thesis
    unfolding order_inv_def
    apply (rule exI [of _ cur], rule exI [of _ "nxt @ ?new"], rule exI [of _ ?j])
    using q2 c1 c2 c3 c4 by blast
qed

lemma order_inv_found:
  assumes ord: "order_inv adj s st" and q: "queue st = c # rest"
  shows "\<exists>later. bfsOrder adj s = (dequeued st @ [c]) @ later"
proof -
  obtain cur nxt where bo: "bfsOrder adj s = dequeued st
             @ remainder adj (visited st) (c # cur) nxt (Suc maxSteps - depthGet (depth st) c)"
    using order_inv_head [OF ord q] by blast
  show ?thesis
    using bo by (cases "Suc maxSteps - depthGet (depth st) c") auto
qed

lemma edge_inv_skip:
  "edge_inv P adj s st \<Longrightarrow> edge_inv P adj s (st\<lparr>queue := rest, dequeued := dq\<rparr>)"
  by (simp add: edge_inv_def)

lemma edge_inv_expand:
  assumes e: "edge_inv P adj s st"
    and chk: "c = s \<or> isProbablyConversion P c = Inr False"
  shows "edge_inv P adj s (expandLoop c d (adjGet adj c) (st\<lparr>queue := rest, dequeued := dq\<rparr>))"
proof -
  let ?new = "newOf (visited st) (adjGet adj c)"
  have dis: "set ?new \<inter> visited st = {}" by (rule newOf_disjoint)
  show ?thesis
    unfolding edge_inv_def
  proof (intro ballI impI)
    fix n
    assume n: "n \<in> visited (expandLoop c d (adjGet adj c) (st\<lparr>queue := rest, dequeued := dq\<rparr>))"
      and ns: "n \<noteq> s"
    show "\<exists>p. parent (expandLoop c d (adjGet adj c) (st\<lparr>queue := rest, dequeued := dq\<rparr>)) n
                 = Some (Some p)
            \<and> n \<in> set (adjGet adj p) \<and> (p = s \<or> isProbablyConversion P p = Inr False)"
    proof (cases "n \<in> set ?new")
      case True
      then have "n \<in> set (adjGet adj c)" using newOf_subset by blast
      then show ?thesis using True chk by (simp add: expandLoop_parent)
    next
      case False
      then have "n \<in> visited st" using n by (simp add: expandLoop_visited)
      then show ?thesis using e ns False by (simp add: expandLoop_parent edge_inv_def)
    qed
  qed
qed

text \<open>What holds besides \<open>bfs_post\<close> when a conversion is found.\<close>

lemma bfsLoop_found_order:
  "bfs_inv P adj s st \<Longrightarrow> order_inv adj s st \<Longrightarrow> edge_inv P adj s st
     \<Longrightarrow> bfsLoop P adj s st = Inr (Some conv, st')
     \<Longrightarrow> (\<exists>later. bfsOrder adj s = dequeued st' @ later) \<and> edge_inv P adj s st'"
proof (induction P adj s st rule: bfsLoop.induct)
  case (1 P adj s st)
  show ?case
  proof (cases "queue st")
    case Nil
    then show ?thesis using "1.prems"(4) by (simp add: bfsLoop_Nil)
  next
    case (Cons cur rest)
    let ?st1 = "st\<lparr>queue := rest, dequeued := dequeued st @ [cur]\<rparr>"
    let ?d = "depthGet (depth st) cur"
    let ?st2 = "expandLoop cur ?d (adjGet adj cur) ?st1"
    note u = bfsLoop_unfold [OF Cons, of P adj s]
    show ?thesis
    proof (cases "maxSteps < ?d")
      case True
      have r: "bfsLoop P adj s ?st1 = Inr (Some conv, st')"
        using "1.prems"(4) True u by simp
      show ?thesis
        using "1.IH"(1) [OF Cons refl refl True bfs_skip_inv [OF "1.prems"(1) Cons True]
            order_inv_skip [OF "1.prems"(2) Cons True] edge_inv_skip [OF "1.prems"(3)] r] .
    next
      case False
      have exp: "bfs_inv P adj s ?st2 \<and> order_inv adj s ?st2 \<and> edge_inv P adj s ?st2"
        if chk: "cur = s \<or> isProbablyConversion P cur = Inr False"
        using bfs_step_inv [OF "1.prems"(1) Cons] chk
          order_inv_expand [OF "1.prems"(1,2) Cons False]
          edge_inv_expand [OF "1.prems"(3) chk] by blast
      show ?thesis
      proof (cases "cur = s")
        case True
        have r: "bfsLoop P adj s ?st2 = Inr (Some conv, st')"
          using "1.prems"(4) True False u by simp
        have i: "bfs_inv P adj s ?st2" "order_inv adj s ?st2" "edge_inv P adj s ?st2"
          using exp True by blast+
        show ?thesis using "1.IH"(3) [OF Cons refl refl False _ i r] True by simp
      next
        case ne: False
        show ?thesis
        proof (cases "isProbablyConversion P cur")
          case (Inl e)
          then show ?thesis using "1.prems"(4) ne False u by simp
        next
          case (Inr b)
          show ?thesis
          proof (cases b)
            case True
            then have e: "cur = conv \<and> ?st1 = st'"
              using "1.prems"(4) ne False u Inr by auto
            have "st' = ?st1" using e by blast
            then show ?thesis
              using order_inv_found [OF "1.prems"(2) Cons] edge_inv_skip [OF "1.prems"(3)]
              by simp
          next
            case bf: False
            have r: "bfsLoop P adj s ?st2 = Inr (Some conv, st')"
              using "1.prems"(4) ne False u Inr bf by simp
            have i: "bfs_inv P adj s ?st2" "order_inv adj s ?st2" "edge_inv P adj s ?st2"
              using exp Inr bf by simp_all
            show ?thesis using "1.IH"(2) [OF Cons refl refl False ne Inr _ i r] bf by simp
          qed
        qed
      qed
    qed
  qed
qed

lemma isProbablyConversion_parses: "isProbablyConversion P u = Inr b \<Longrightarrow> P u \<noteq> None"
  by (auto simp: isProbablyConversion_def split: option.splits)

lemma walkParents_chain:
  assumes t: "tree_inv adj s st" and e: "edge_inv P adj s st" and emp: "P [] = None"
  shows "n \<in> visited st \<Longrightarrow> n \<noteq> s \<Longrightarrow> n \<noteq> [] \<Longrightarrow> depthGet (depth st) n = k \<Longrightarrow>
         \<exists>path. walkParents (parent st) s (Some n) acc = Some (acc @ path)
              \<and> path \<noteq> [] \<and> hd path = n
              \<and> successively (\<lambda>a b. a \<in> set (adjGet adj b)) path
              \<and> last path \<in> set (adjGet adj s)"
proof (induction k arbitrary: n acc)
  case 0
  obtain p where "depthGet (depth st) n = depthGet (depth st) p + 1"
    using t "0.prems"(1,2) unfolding tree_inv_def by blast
  then show ?case using "0.prems"(4) by simp
next
  case (Suc k)
  obtain p where p: "parent st n = Some (Some p)" "p \<in> visited st"
      "depthGet (depth st) n = depthGet (depth st) p + 1"
    using t Suc.prems(1,2) unfolding tree_inv_def by blast
  obtain p' where p': "parent st n = Some (Some p')" "n \<in> set (adjGet adj p')"
      "p' = s \<or> isProbablyConversion P p' = Inr False"
    using e Suc.prems(1,2) unfolding edge_inv_def by blast
  have pp: "p' = p" using p(1) p'(1) by simp
  have dp: "depthGet (depth st) p = k" using p(3) Suc.prems(4) by simp
  have go: "walkParents (parent st) s (Some n) acc
              = walkParents (parent st) s (orNull (Some (Some p))) (acc @ [n])"
    using walkParents_go [OF Suc.prems(3,2), of "parent st" acc] p(1) by simp
  show ?case
  proof (cases "p = s")
    case True
    have "walkParents (parent st) s (orNull (Some (Some p))) (acc @ [n]) = Some (acc @ [n])"
      using True by (cases "s = []") (simp_all add: orNull_def walkParents_None walkParents_stop)
    then have "walkParents (parent st) s (Some n) acc = Some (acc @ [n])" using go by simp
    moreover have "last [n] \<in> set (adjGet adj s)" using p'(2) pp True by simp
    moreover have "successively (\<lambda>a b. a \<in> set (adjGet adj b)) [n]" by simp
    ultimately show ?thesis by (metis list.sel(1) not_Cons_self2)
  next
    case False
    then have "isProbablyConversion P p = Inr False" using p'(3) pp by simp
    then have pne: "p \<noteq> []" using isProbablyConversion_parses emp by blast
    then have go': "walkParents (parent st) s (Some n) acc
              = walkParents (parent st) s (Some p) (acc @ [n])"
      using go by (simp add: orNull_def)
    obtain path where path: "walkParents (parent st) s (Some p) (acc @ [n])
            = Some ((acc @ [n]) @ path)" "path \<noteq> []" "hd path = p"
        "successively (\<lambda>a b. a \<in> set (adjGet adj b)) path" "last path \<in> set (adjGet adj s)"
      using Suc.IH [OF p(2) False pne dp, of "acc @ [n]"] by blast
    have 1: "walkParents (parent st) s (Some n) acc = Some (acc @ (n # path))"
      using go' path(1) by simp
    have 2: "successively (\<lambda>a b. a \<in> set (adjGet adj b)) (n # path)"
      using path(2,3,4) p'(2) pp by (simp add: successively_Cons)
    have 3: "last (n # path) \<in> set (adjGet adj s)" using path(2,5) by simp
    show ?thesis using 1 2 3 by (metis list.sel(1) list.distinct(1))
  qed
qed

lemma funnelFrom_Some_D:
  assumes "funnelFrom P byUrl adj start = Some (Inr (Some f))"
  shows "\<exists>st pushed. bfsLoop P adj (finalUrl start) (bfsInit (finalUrl start))
                       = Inr (Some (conversion f), st)
           \<and> conversion f \<noteq> []
           \<and> walkParents (parent st) (finalUrl start) (Some (conversion f)) [] = Some pushed
           \<and> landing f = finalUrl start \<and> steps f = rev pushed"
  using assms
  by (auto simp: funnelFrom_def Let_def
      split: if_splits sum.splits option.splits prod.splits)

lemma collectFunnels_from:
  "collectFunnels P byUrl adj pages acc = Some (Inr fs) \<Longrightarrow> f \<in> set fs \<Longrightarrow>
   f \<in> set acc \<or> (\<exists>start \<in> set pages. funnelFrom P byUrl adj start = Some (Inr (Some f)))"
proof (induction pages arbitrary: acc)
  case Nil
  then show ?case by simp
next
  case (Cons start rest)
  show ?case
  proof (cases "funnelFrom P byUrl adj start")
    case None
    then show ?thesis using Cons.prems(1) by simp
  next
    case (Some r)
    show ?thesis
    proof (cases r)
      case (Inl e)
      then show ?thesis using Cons.prems(1) Some by simp
    next
      case (Inr res)
      show ?thesis
      proof (cases res)
        case None
        then have "collectFunnels P byUrl adj rest acc = Some (Inr fs)"
          using Cons.prems(1) Some Inr by simp
        then show ?thesis using Cons.IH [of acc] Cons.prems(2) by auto
      next
        case (Some g)
        then have "collectFunnels P byUrl adj rest (acc @ [g]) = Some (Inr fs)"
          using Cons.prems(1) \<open>funnelFrom P byUrl adj start = Some r\<close> Inr by simp
        then have "f \<in> set (acc @ [g])
            \<or> (\<exists>start \<in> set rest. funnelFrom P byUrl adj start = Some (Inr (Some f)))"
          using Cons.IH [of "acc @ [g]"] Cons.prems(2) by blast
        then show ?thesis
          using \<open>funnelFrom P byUrl adj start = Some r\<close> Inr Some by auto
      qed
    qed
  qed
qed

lemma buildFunnels_from:
  assumes "buildFunnels P adPages = Some (Inr fs)" and "f \<in> set fs"
  shows "\<exists>start \<in> set adPages.
           funnelFrom P (byUrlEntries adPages) (adjEntries adPages) start = Some (Inr (Some f))"
proof -
  obtain gs where gs: "collectFunnels P (byUrlEntries adPages) (adjEntries adPages) adPages []
        = Some (Inr gs)" "fs = dedupeLoop {} (sort_key (\<lambda>f. - confidence f) gs)"
    using assms(1) by (auto simp: buildFunnels_def split: option.splits sum.splits)
  have "f \<in> set gs" using assms(2) gs(2) dedupeLoop_subset by fastforce
  then show ?thesis using collectFunnels_from [OF gs(1)] by simp
qed

lemma branchSite_funnels:
  "buildFunnels plainParseURL branchSite = Some (Inr [funnelToPay1, funnelToPay2])"
  by code_simp

lemma branchSite_order:
  "bfsOrder (adjEntries branchSite) ''https://a.com/lp''
     = [''https://a.com/lp'', ''https://a.com/offer'', ''https://a.com/pay1'',
        ''https://a.com/pay2'']"
  by code_simp

lemma plain_empty: "plainParseURL [] = None"
  by (simp add: plainParseURL_def)

text \<open>
  C4. For every funnel returned by \<open>buildFunnels\<close>: the array \<open>steps\<close> holds at most 5
  nodes and ends with the conversion, and the landing followed by \<open>steps\<close> is a path of
  the adjacency (each node is in the adjacency list of the one before it), so the
  reconstructed path from the landing to the conversion has at most 5 edges. The
  conversion is not the landing and matches the conversion-path heuristic, and in the
  breadth-first order of the adjacency from the landing every node before it is the
  landing or does not match: it is the first match in that order. The search stops
  there: the nodes it has taken from the queue are that order up to the conversion. That
  the path reaches the landing uses that the \<open>URL\<close> constructor rejects the empty
  string.
\<close>

theorem buildFunnels_step_budget_first_match:
  assumes "buildFunnels P adPages = Some (Inr fs)" and "f \<in> set fs"
  shows "length (steps f) \<le> 5 \<and> steps f \<noteq> [] \<and> last (steps f) = conversion f
       \<and> conversion f \<noteq> landing f
       \<and> isProbablyConversion P (conversion f) = Inr True
       \<and> (\<exists>st pre later.
             bfsOrder (adjEntries adPages) (landing f) = pre @ conversion f # later
           \<and> (\<forall>n \<in> set pre. n = landing f \<or> isProbablyConversion P n = Inr False)
           \<and> bfsLoop P (adjEntries adPages) (landing f) (bfsInit (landing f))
                      = Inr (Some (conversion f), st)
           \<and> dequeued st = pre @ [conversion f])
       \<and> (P [] = None \<longrightarrow>
            successively (\<lambda>a b. b \<in> set (adjGet (adjEntries adPages) a)) (landing f # steps f))"
proof -
  let ?adj = "adjEntries adPages"
  obtain start where ff: "funnelFrom P (byUrlEntries adPages) ?adj start = Some (Inr (Some f))"
    using buildFunnels_from [OF assms] by blast
  have ok: "funnel_ok P (byUrlEntries adPages) ?adj start f"
    using funnelFrom_cases [of P "byUrlEntries adPages" ?adj start] ff by auto
  obtain st pushed where
    b: "bfsLoop P ?adj (finalUrl start) (bfsInit (finalUrl start)) = Inr (Some (conversion f), st)"
    and cne: "conversion f \<noteq> []"
    and w: "walkParents (parent st) (finalUrl start) (Some (conversion f)) [] = Some pushed"
    and l: "landing f = finalUrl start" and sp: "steps f = rev pushed"
    using funnelFrom_Some_D [OF ff] by blast
  have post: "bfs_post P ?adj (landing f) (conversion f) st"
    using bfsLoop_found [OF bfs_inv_init b] unfolding l .
  obtain later where later: "bfsOrder ?adj (landing f) = dequeued st @ later"
    and ed: "edge_inv P ?adj (landing f) st"
    using bfsLoop_found_order [OF bfs_inv_init order_inv_init edge_inv_init b] unfolding l
    by blast
  obtain pre where pre: "dequeued st = pre @ [conversion f]"
      "\<forall>n \<in> set pre. n = landing f \<or> isProbablyConversion P n = Inr False"
    using post unfolding bfs_post_def by blast
  have t: "tree_inv ?adj (landing f) st" and cv: "conversion f \<in> visited st"
    and cs: "conversion f \<noteq> landing f"
    and cc: "isProbablyConversion P (conversion f) = Inr True"
    using post by (simp_all add: bfs_post_def)
  have ord: "bfsOrder ?adj (landing f) = pre @ conversion f # later"
    using later pre(1) by simp
  have basic: "length (steps f) \<le> 5" "steps f \<noteq> []" "last (steps f) = conversion f"
    using ok by (simp_all add: funnel_ok_def maxSteps_def)
  have chain: "successively (\<lambda>a b. b \<in> set (adjGet ?adj a)) (landing f # steps f)"
    if emp: "P [] = None"
  proof -
    obtain path where path: "walkParents (parent st) (landing f) (Some (conversion f)) []
          = Some ([] @ path)" "path \<noteq> []"
        "successively (\<lambda>a b. a \<in> set (adjGet ?adj b)) path"
        "last path \<in> set (adjGet ?adj (landing f))"
      using walkParents_chain [OF t ed emp cv cs cne refl, of "[]"] by blast
    have "pushed = path" using w path(1) unfolding l by simp
    then have s: "steps f = rev path" using sp by simp
    have "successively (\<lambda>a b. b \<in> set (adjGet ?adj a)) (rev path)"
      using path(3) by simp
    moreover have "hd (rev path) \<in> set (adjGet ?adj (landing f))"
      using path(2,4) by (simp add: hd_rev)
    ultimately show ?thesis unfolding s by (simp add: successively_Cons)
  qed
  show ?thesis
    using basic cs cc ord pre b chain unfolding l by blast
qed

theorem buildFunnels_step_budget_first_match_witness:
  "buildFunnels plainParseURL branchSite = Some (Inr [funnelToPay1, funnelToPay2])
   \<and> funnelToPay1 \<in> set [funnelToPay1, funnelToPay2]
   \<and> plainParseURL [] = None
   \<and> bfsOrder (adjEntries branchSite) (landing funnelToPay1)
       = [''https://a.com/lp'', ''https://a.com/offer'', ''https://a.com/pay1'',
          ''https://a.com/pay2'']
   \<and> conversion funnelToPay1 = ''https://a.com/pay1''
   \<and> length (steps funnelToPay1) \<le> 5
   \<and> (\<exists>st pre later.
         bfsOrder (adjEntries branchSite) (landing funnelToPay1)
           = pre @ conversion funnelToPay1 # later
       \<and> bfsLoop plainParseURL (adjEntries branchSite) (landing funnelToPay1)
            (bfsInit (landing funnelToPay1)) = Inr (Some (conversion funnelToPay1), st)
       \<and> dequeued st = pre @ [conversion funnelToPay1])
   \<and> successively (\<lambda>a b. b \<in> set (adjGet (adjEntries branchSite) a))
        (landing funnelToPay1 # steps funnelToPay1)
   \<and> buildFunnels plainParseURL exampleSite = Some (Inr [funnelDirect, funnelViaOffer])
   \<and> length (steps funnelViaOffer) = 2
   \<and> successively (\<lambda>a b. b \<in> set (adjGet (adjEntries exampleSite) a))
        (landing funnelViaOffer # steps funnelViaOffer)"
proof -
  have m: "funnelToPay1 \<in> set [funnelToPay1, funnelToPay2]" by simp
  have m2: "funnelViaOffer \<in> set [funnelDirect, funnelViaOffer]" by simp
  have o: "bfsOrder (adjEntries branchSite) (landing funnelToPay1)
       = [''https://a.com/lp'', ''https://a.com/offer'', ''https://a.com/pay1'',
          ''https://a.com/pay2'']"
    using branchSite_order by (simp add: funnelToPay1_def)
  have c: "conversion funnelToPay1 = ''https://a.com/pay1''" by (simp add: funnelToPay1_def)
  have l: "length (steps funnelViaOffer) = 2" by (simp add: funnelViaOffer_def)
  show ?thesis
    using buildFunnels_step_budget_first_match [OF branchSite_funnels m]
      buildFunnels_step_budget_first_match [OF exampleSite_funnels m2]
      branchSite_funnels exampleSite_funnels m plain_empty o c l
    by blast
qed

text \<open>
  C5. In a run, every URL of a returned funnel (the landing, every entry of
  \<open>steps\<close>, the conversion) is the \<open>finalUrl\<close> of a page of the ad-like list, which
  holds only checked pages of score at least 18; and the landing URL does not match the
  conversion-path heuristic.
\<close>

theorem run_funnel_urls_are_ad_like:
  assumes "runFunnelFinder_report P baseUrl checked = Some (Inr (adLikePages, fs, txt))"
    and "f \<in> set fs"
  shows "(\<forall>u \<in> set (landing f # steps f @ [conversion f]).
            \<exists>p \<in> set adLikePages. p \<in> set checked \<and> finalUrl p = u \<and> 18 \<le> score p)
       \<and> isProbablyConversion P (landing f) = Inr False"
proof -
  have a: "adLikePages = adLikeOf checked" and b: "buildFunnels P adLikePages = Some (Inr fs)"
    using run_report_funnels [OF assms(1)] by blast+
  obtain start where start: "start \<in> set adLikePages"
      "funnel_ok P (byUrlEntries adLikePages) (adjEntries adLikePages) start f"
    using buildFunnels_ok [OF b assms(2)] by blast
  have pages: "\<And>p. p \<in> set adLikePages \<Longrightarrow> p \<in> set checked \<and> 18 \<le> score p"
    using adLikeOf_subset [of checked] a by auto
  have l: "landing f = finalUrl start" and nc: "isProbablyConversion P (landing f) = Inr False"
    using start(2) by (simp_all add: funnel_ok_def)
  have "set (steps f) \<subseteq> finalUrl ` set adLikePages"
    using start(2) adjNodes_adjEntries [of adLikePages] unfolding funnel_ok_def by blast
  moreover have "conversion f \<in> set (steps f)"
    using start(2) by (metis funnel_ok_def last_in_set)
  ultimately have "set (landing f # steps f @ [conversion f]) \<subseteq> finalUrl ` set adLikePages"
    using l start(1) by auto
  then have "\<forall>u \<in> set (landing f # steps f @ [conversion f]).
            \<exists>p \<in> set adLikePages. p \<in> set checked \<and> finalUrl p = u \<and> 18 \<le> score p"
    using pages by (metis (no_types, lifting) imageE subsetD)
  then show ?thesis using nc by blast
qed

theorem run_funnel_urls_are_ad_like_witness:
  "runFunnelFinder_report plainParseURL ''https://a.com/'' exampleSite
     = Some (Inr (exampleSite, [funnelDirect, funnelViaOffer],
          formatOutputText ''https://a.com/'' exampleSite [funnelDirect, funnelViaOffer]))
   \<and> funnelViaOffer \<in> set [funnelDirect, funnelViaOffer]
   \<and> (\<exists>p \<in> set exampleSite. finalUrl p = ''https://a.com/lp'' \<and> 18 \<le> score p)
   \<and> (\<exists>p \<in> set exampleSite. finalUrl p = ''https://a.com/offer'' \<and> 18 \<le> score p)
   \<and> (\<exists>p \<in> set exampleSite. finalUrl p = ''https://a.com/checkout'' \<and> 18 \<le> score p)
   \<and> isProbablyConversion plainParseURL ''https://a.com/lp'' = Inr False"
proof -
  have m: "funnelViaOffer \<in> set [funnelDirect, funnelViaOffer]" by simp
  have l: "landing funnelViaOffer = ''https://a.com/lp''"
    and u: "steps funnelViaOffer = [''https://a.com/offer'', ''https://a.com/checkout'']"
    and c: "conversion funnelViaOffer = ''https://a.com/checkout''"
    by (simp_all add: funnelViaOffer_def)
  show ?thesis
    using run_funnel_urls_are_ad_like [OF exampleSite_report m] exampleSite_report m
    unfolding l u c by simp
qed

text \<open>
  C9. In a run, every returned funnel has an integer confidence between 54 and 100:
  the landing page and the conversion page are in the ad-like list, so each scores at
  least 18, and the bonus is positive.
\<close>

theorem run_confidence_between_54_and_100:
  assumes "runFunnelFinder_report P baseUrl checked = Some (Inr (adLikePages, fs, txt))"
    and "f \<in> set fs"
  shows "54 \<le> confidence f \<and> confidence f \<le> 100"
proof -
  have a: "adLikePages = adLikeOf checked" and b: "buildFunnels P adLikePages = Some (Inr fs)"
    using run_report_funnels [OF assms(1)] by blast+
  obtain start where start: "start \<in> set adLikePages"
      "funnel_ok P (byUrlEntries adLikePages) (adjEntries adLikePages) start f"
    using buildFunnels_ok [OF b assms(2)] by blast
  obtain cp where cp: "mapGet (byUrlEntries adLikePages) (conversion f) = Some cp"
    using funnel_ok_conversion_page [OF start(2)] by blast
  have "cp \<in> set adLikePages" using mapGet_byUrl_Some [OF cp] by simp
  then have s2: "18 \<le> score cp" using adLikeOf_subset [of checked] a by auto
  have s1: "18 \<le> score start" using start(2) by (simp add: funnel_ok_def)
  let ?x = "of_int (score start * 2) + of_int (score cp)
              + 10 / of_nat (length (steps f)) :: rat"
  have c: "confidence f = mathRound (min 100 ?x)"
    using start(2) cp by (simp add: funnel_ok_def)
  have "(0::rat) \<le> 10 / of_nat (length (steps f))" by simp
  moreover have "(54::rat) \<le> of_int (score start * 2) + of_int (score cp)"
  proof -
    have "(54::int) \<le> score start * 2 + score cp" using s1 s2 by simp
    then have "of_int 54 \<le> (of_int (score start * 2 + score cp) :: rat)"
      by (simp only: of_int_le_iff)
    then show ?thesis by simp
  qed
  ultimately have "(54::rat) \<le> ?x" by linarith
  then have "of_int 54 \<le> min 100 ?x" by simp
  then have "mathRound (of_int 54) \<le> mathRound (min 100 ?x)" by (rule mathRound_mono)
  then have lo: "54 \<le> confidence f" unfolding c mathRound_of_int .
  have "min 100 ?x \<le> of_int 100" by simp
  then have "mathRound (min 100 ?x) \<le> mathRound (of_int 100)" by (rule mathRound_mono)
  then have hi: "confidence f \<le> 100" unfolding c mathRound_of_int .
  show ?thesis using lo hi by simp
qed

theorem run_confidence_between_54_and_100_witness:
  "runFunnelFinder_report plainParseURL ''https://a.com/'' exampleSite
     = Some (Inr (exampleSite, [funnelDirect, funnelViaOffer],
          formatOutputText ''https://a.com/'' exampleSite [funnelDirect, funnelViaOffer]))
   \<and> funnelViaOffer \<in> set [funnelDirect, funnelViaOffer]
   \<and> confidence funnelViaOffer = 65
   \<and> 54 \<le> confidence funnelViaOffer \<and> confidence funnelViaOffer \<le> 100"
proof -
  have m: "funnelViaOffer \<in> set [funnelDirect, funnelViaOffer]" by simp
  have c: "confidence funnelViaOffer = 65" by (simp add: funnelViaOffer_def)
  show ?thesis
    using run_confidence_between_54_and_100 [OF exampleSite_report m] exampleSite_report m c
    by blast
qed

lemma funnelLine_spec:
  assumes "steps f \<noteq> []" and "last (steps f) = conversion f"
  shows "funnelLine f = specChainLine f"
proof -
  have "steps f = butlast (steps f) @ [conversion f]"
    using assms by (metis append_butlast_last_id)
  then have "landing f # steps f = [landing f] @ intermediateSteps f @ [conversion f]"
    by (simp add: intermediateSteps_def)
  then show ?thesis by (simp add: funnelLine_def specChainLine_def Let_def)
qed

text \<open>
  C2. The report of a run lists one line per funnel, and each line is the funnel's
  confidence in brackets followed by the landing URL, each intermediate step URL and
  the conversion URL, joined by \<open>" -> "\<close>.
\<close>

theorem run_report_chain_lines:
  assumes "runFunnelFinder_report P baseUrl checked = Some (Inr (adLikePages, fs, txt))"
  shows "txt =
     join [CHR 0x0A]
       ([''# Funnel Finder Output'', ''Base: '' @ baseUrl, '''',
         ''## Funnels (landing -> ... -> conversion)'']
        @ (if fs = [] then [''(none found)''] else map specChainLine fs)
        @ ['''', ''## Ad-like Pages (best candidates for ads)'']
        @ (if adLikePages = [] then [''(none)''] else map pageLine adLikePages))"
proof -
  have b: "buildFunnels P adLikePages = Some (Inr fs)"
    and t: "txt = formatOutputText baseUrl adLikePages fs"
    using run_report_funnels [OF assms] by blast+
  have "funnelLine f = specChainLine f" if mem: "f \<in> set fs" for f
  proof -
    obtain start where "funnel_ok P (byUrlEntries adLikePages) (adjEntries adLikePages) start f"
      using buildFunnels_ok [OF b mem] by blast
    then show ?thesis by (intro funnelLine_spec) (simp_all add: funnel_ok_def)
  qed
  then have "map funnelLine fs = map specChainLine fs" by simp
  then show ?thesis unfolding t formatOutputText_def by (simp only:)
qed

theorem run_report_chain_lines_witness:
  "runFunnelFinder_report plainParseURL ''https://a.com/'' exampleSite
     = Some (Inr (exampleSite, [funnelDirect, funnelViaOffer],
          formatOutputText ''https://a.com/'' exampleSite [funnelDirect, funnelViaOffer]))
   \<and> specChainLine funnelViaOffer
       = ''- [65] https://a.com/lp -> https://a.com/offer -> https://a.com/checkout''
   \<and> formatOutputText ''https://a.com/'' exampleSite [funnelDirect, funnelViaOffer] =
     join [CHR 0x0A]
       ([''# Funnel Finder Output'', ''Base: '' @ ''https://a.com/'', '''',
         ''## Funnels (landing -> ... -> conversion)'']
        @ (if [funnelDirect, funnelViaOffer] = [] then [''(none found)'']
           else map specChainLine [funnelDirect, funnelViaOffer])
        @ ['''', ''## Ad-like Pages (best candidates for ads)'']
        @ (if exampleSite = [] then [''(none)''] else map pageLine exampleSite))"
proof -
  have l: "specChainLine funnelViaOffer
       = ''- [65] https://a.com/lp -> https://a.com/offer -> https://a.com/checkout''"
    by code_simp
  show ?thesis
    using run_report_chain_lines [OF exampleSite_report] exampleSite_report l
    by blast
qed

subsection \<open>The crawler and sitemap discovery\<close>

declare crawlLoop.simps [simp del]
declare discoverLoop.simps [simp del]

lemma arrayFromSet_distinct: "distinct (arrayFromSet xs)"
  by (simp add: arrayFromSet_def)

lemma arrayFromSet_length: "length (arrayFromSet xs) \<le> length xs"
  using length_remdups_leq [of "rev xs"] by (simp add: arrayFromSet_def)

lemma arrayFromSet_set: "set (arrayFromSet xs) = set xs"
  by (simp add: arrayFromSet_def)

lemma crawlLoop_found_bound:
  "length found \<le> maxPages \<Longrightarrow>
   crawlLoop P R T F base robots maxPages maxDepth q seen found = Inr r \<Longrightarrow>
   length r \<le> maxPages"
proof (induction P R T F base robots maxPages maxDepth q seen found rule: crawlLoop.induct)
  case (1 P R T F base robots maxPages maxDepth q seen found)
  show ?case
  proof (cases "q \<noteq> [] \<and> length found < maxPages \<and> length q < maxQueue")
    case False
    then have "r = found" using "1.prems"(2) by (subst (asm) crawlLoop.simps) auto
    then show ?thesis using "1.prems"(1) by simp
  next
    case True
    then have grow: "length (found @ [fst (hd q)]) \<le> maxPages" by simp
    show ?thesis
    proof (cases "isAllowedByRobots P base robots (fst (hd q))")
      case (Inl e)
      then show ?thesis using "1.prems"(2) True by (subst (asm) crawlLoop.simps) auto
    next
      case (Inr allowed)
      show ?thesis
      proof (cases allowed)
        case False
        then have "crawlLoop P R T F base robots maxPages maxDepth (tl q) seen found = Inr r"
          using "1.prems"(2) True Inr by (subst (asm) crawlLoop.simps) (simp add: Let_def)
        then show ?thesis
          using "1.IH"(1) [OF True refl refl refl Inr _ "1.prems"(1)] False by simp
      next
        case al: True
        show ?thesis
        proof (cases "maxDepth \<le> snd (hd q)")
          case True
          then have "crawlLoop P R T F base robots maxPages maxDepth (tl q) seen
                       (found @ [fst (hd q)]) = Inr r"
            using "1.prems"(2) \<open>q \<noteq> [] \<and> length found < maxPages \<and> length q < maxQueue\<close> Inr al
            by (subst (asm) crawlLoop.simps) (simp add: Let_def)
          then show ?thesis
            using "1.IH"(2) [OF \<open>q \<noteq> [] \<and> length found < maxPages \<and> length q < maxQueue\<close>
                refl refl refl Inr _ True grow] al by simp
        next
          case dp: False
          show ?thesis
          proof (cases "F (fst (hd q))")
            case None
            then have "crawlLoop P R T F base robots maxPages maxDepth (tl q) seen
                       (found @ [fst (hd q)]) = Inr r"
              using "1.prems"(2) True Inr al dp
              by (subst (asm) crawlLoop.simps) (simp add: Let_def)
            then show ?thesis
              using "1.IH"(3) [OF True refl refl refl Inr _ dp None grow] al by simp
          next
            case (Some hrefs)
            show ?thesis
            proof (cases "linkLoop P R T base (fst (hd q)) (snd (hd q)) hrefs (tl q) seen")
              case (Inl e)
              then show ?thesis
                using "1.prems"(2) True Inr al dp Some
                by (subst (asm) crawlLoop.simps) (simp add: Let_def)
            next
              case lk: (Inr qs)
              obtain q' seen' where qs: "qs = (q', seen')" by (cases qs)
              have "crawlLoop P R T F base robots maxPages maxDepth q' seen'
                       (found @ [fst (hd q)]) = Inr r"
                using "1.prems"(2) True Inr al dp Some lk qs
                by (subst (asm) crawlLoop.simps) (simp add: Let_def)
              then show ?thesis
                using "1.IH"(4) [OF True refl refl refl Inr _ dp Some lk qs [symmetric] grow] al
                by simp
            qed
          qed
        qed
      qed
    qed
  qed
qed


lemma exampleCrawl:
  "crawlInternalLinks plainParseURL plainResolveURL plainToString exampleFetchHrefs
     ''a.com'' exampleRobots 350 4
   = Inr [''https://a.com/'', ''https://a.com/lp'', ''https://a.com/checkout'']"
  by code_simp

lemma exampleCrawl_small_budget:
  "crawlInternalLinks plainParseURL plainResolveURL plainToString exampleFetchHrefs
     ''a.com'' exampleRobots 2 4
   = Inr [''https://a.com/'', ''https://a.com/lp'']"
  by code_simp

text \<open>
  C3. Whatever the site serves (\<open>fetchHrefs\<close> is arbitrary, so a complete graph on
  10,000 nodes is one of its values), the list \<open>crawlInternalLinks\<close> returns holds no
  URL twice and is no longer than \<open>maxPages\<close>, which is 350 in a run.
\<close>

theorem crawlInternalLinks_distinct_within_budget:
  assumes "crawlInternalLinks parseURL resolveURL toString fetchHrefs seedUrl robots
             maxPages maxDepth = Inr r"
  shows "distinct r \<and> length r \<le> maxPages"
proof -
  obtain base strippedBase found where
    f: "crawlLoop parseURL resolveURL toString fetchHrefs base robots maxPages maxDepth
          [(base, 0)] {strippedBase} [] = Inr found"
    and r: "r = arrayFromSet found"
    using assms by (auto simp: crawlInternalLinks_def split: sum.splits)
  have "length found \<le> maxPages"
    using crawlLoop_found_bound [OF _ f] by simp
  then have "length r \<le> maxPages"
    unfolding r using arrayFromSet_length [of found] by simp
  then show ?thesis unfolding r by (simp add: arrayFromSet_distinct)
qed

theorem crawlInternalLinks_distinct_within_budget_witness:
  "crawlInternalLinks plainParseURL plainResolveURL plainToString exampleFetchHrefs
     ''a.com'' exampleRobots 350 4
     = Inr [''https://a.com/'', ''https://a.com/lp'', ''https://a.com/checkout'']
   \<and> distinct [''https://a.com/'', ''https://a.com/lp'', ''https://a.com/checkout'']
   \<and> length [''https://a.com/'', ''https://a.com/lp'', ''https://a.com/checkout''] \<le> (350::nat)
   \<and> crawlInternalLinks plainParseURL plainResolveURL plainToString exampleFetchHrefs
     ''a.com'' exampleRobots 2 4 = Inr [''https://a.com/'', ''https://a.com/lp'']
   \<and> length [''https://a.com/'', ''https://a.com/lp''] \<le> (2::nat)"
  using crawlInternalLinks_distinct_within_budget [OF exampleCrawl]
    crawlInternalLinks_distinct_within_budget [OF exampleCrawl_small_budget]
    exampleCrawl exampleCrawl_small_budget
  by blast

lemma log_ok_fetch:
  assumes ok: "log_ok fs lg" and lt: "length fs < maxSitemapsToFetch"
  shows "log_ok fs (lg @ [(sm, False)])" and "log_ok (fs @ [sm]) (lg @ [(sm, True)])"
proof -
  have cnt: "length (filter snd lg) = length fs"
    using ok unfolding log_ok_def by (metis length_map)
  have tail: "post = []"
    if "lg @ [e] = pre @ post" "maxSitemapsToFetch \<le> length (filter snd pre)" for e pre post
  proof (cases post rule: rev_cases)
    case Nil
    then show ?thesis .
  next
    case (snoc ys y)
    then have "lg = pre @ ys" using that(1) by simp
    then have "length (filter snd pre) \<le> length (filter snd lg)" by simp
    then show ?thesis using that(2) cnt lt by simp
  qed
  show "log_ok fs (lg @ [(sm, False)])"
    unfolding log_ok_def using ok lt tail [of "(sm, False)"] by (auto simp: log_ok_def)
  show "log_ok (fs @ [sm]) (lg @ [(sm, True)])"
    unfolding log_ok_def using ok lt tail [of "(sm, True)"] by (auto simp: log_ok_def)
qed

lemma discoverLoop_stop:
  "\<not> (smQueue \<noteq> [] \<and> length foundSitemaps < maxSitemapsToFetch) \<Longrightarrow>
   discoverLoop F X smQueue foundSitemaps pageUrls seenSm fetchLog
     = (pageUrls, foundSitemaps, fetchLog)"
  by (subst discoverLoop.simps) auto

lemma discoverLoop_seen:
  "smQueue \<noteq> [] \<and> length foundSitemaps < maxSitemapsToFetch \<Longrightarrow> hd smQueue \<in> seenSm \<Longrightarrow>
   discoverLoop F X smQueue foundSitemaps pageUrls seenSm fetchLog
     = discoverLoop F X (tl smQueue) foundSitemaps pageUrls seenSm fetchLog"
  by (subst discoverLoop.simps) (simp add: Let_def)

lemma discoverLoop_fail:
  "smQueue \<noteq> [] \<and> length foundSitemaps < maxSitemapsToFetch \<Longrightarrow> hd smQueue \<notin> seenSm \<Longrightarrow>
   F (length fetchLog) (hd smQueue) = None \<or> F (length fetchLog) (hd smQueue) = Some [] \<Longrightarrow>
   discoverLoop F X smQueue foundSitemaps pageUrls seenSm fetchLog
     = discoverLoop F X (tl smQueue) foundSitemaps pageUrls
         (insert (hd smQueue) seenSm) (fetchLog @ [(hd smQueue, False)])"
  by (subst discoverLoop.simps) (simp add: Let_def)

lemma discoverLoop_success:
  "smQueue \<noteq> [] \<and> length foundSitemaps < maxSitemapsToFetch \<Longrightarrow> hd smQueue \<notin> seenSm \<Longrightarrow>
   \<not> (F (length fetchLog) (hd smQueue) = None \<or> F (length fetchLog) (hd smQueue) = Some []) \<Longrightarrow>
   discoverLoop F X smQueue foundSitemaps pageUrls seenSm fetchLog
     = discoverLoop F X
         (tl smQueue @ filter (\<lambda>child. child \<notin> insert (hd smQueue) seenSm)
            (childSitemaps (X (the (F (length fetchLog) (hd smQueue))))))
         (foundSitemaps @ [hd smQueue])
         (pageUrls @ urls (X (the (F (length fetchLog) (hd smQueue)))))
         (insert (hd smQueue) seenSm) (fetchLog @ [(hd smQueue, True)])"
  by (subst discoverLoop.simps) (auto simp: Let_def)

lemma discoverLoop_log_ok:
  "log_ok foundSitemaps fetchLog \<Longrightarrow>
   discoverLoop F X smQueue foundSitemaps pageUrls seenSm fetchLog = (us, fs, lg) \<Longrightarrow>
   log_ok fs lg"
proof (induction F X smQueue foundSitemaps pageUrls seenSm fetchLog rule: discoverLoop.induct)
  case (1 F X smQueue foundSitemaps pageUrls seenSm fetchLog)
  show ?case
  proof (cases "smQueue \<noteq> [] \<and> length foundSitemaps < maxSitemapsToFetch")
    case False
    then have "fs = foundSitemaps" "lg = fetchLog"
      using "1.prems"(2) by (simp_all add: discoverLoop_stop)
    then show ?thesis using "1.prems"(1) by simp
  next
    case True
    then have lt: "length foundSitemaps < maxSitemapsToFetch" by simp
    show ?thesis
    proof (cases "hd smQueue \<in> seenSm")
      case sn: True
      have "discoverLoop F X (tl smQueue) foundSitemaps pageUrls seenSm fetchLog = (us, fs, lg)"
        using "1.prems"(2) unfolding discoverLoop_seen [where F=F and smQueue=smQueue, OF True sn] .
      then show ?thesis using "1.IH"(1) [OF True refl refl sn "1.prems"(1)] by simp
    next
      case ns: False
      let ?text = "F (length fetchLog) (hd smQueue)"
      show ?thesis
      proof (cases "?text = None \<or> ?text = Some []")
        case fail: True
        have "discoverLoop F X (tl smQueue) foundSitemaps pageUrls
                     (insert (hd smQueue) seenSm) (fetchLog @ [(hd smQueue, False)]) = (us, fs, lg)"
          using "1.prems"(2) unfolding discoverLoop_fail [where F=F and smQueue=smQueue and fetchLog=fetchLog, OF True ns fail] .
        then show ?thesis
          using "1.IH"(2) [OF True refl refl ns refl refl fail
              log_ok_fetch(1) [OF "1.prems"(1) lt]] by simp
      next
        case succ: False
        have "discoverLoop F X
                     (tl smQueue @ filter (\<lambda>child. child \<notin> insert (hd smQueue) seenSm)
                        (childSitemaps (X (the ?text))))
                     (foundSitemaps @ [hd smQueue]) (pageUrls @ urls (X (the ?text)))
                     (insert (hd smQueue) seenSm) (fetchLog @ [(hd smQueue, True)]) = (us, fs, lg)"
          using "1.prems"(2) unfolding discoverLoop_success [where F=F and smQueue=smQueue and fetchLog=fetchLog, OF True ns succ] .
        then show ?thesis
          using "1.IH"(3) [OF True refl refl ns refl refl succ refl
              log_ok_fetch(2) [OF "1.prems"(1) lt]] by simp
      qed
    qed
  qed
qed

lemma log_ok_init: "log_ok [] []"
  by (simp add: log_ok_def)

lemma endless_found_count:
  "map_sum id (\<lambda>r. length (snd r))
     (discoverSitemapUrls plainParseURL endlessFetchText endlessParseSitemapXml
        ''https://a.com/'' []) = Inr 20"
  by code_simp

lemma example_discover:
  "discoverSitemapUrls plainParseURL exampleFetchText exampleParseSitemapXml ''https://a.com/''
     [''https://a.com/sitemap.xml'', ''https://a.com/missing.xml'']
   = Inr ([''https://a.com/lp'', ''https://a.com/offer''],
          [''https://a.com/sitemap.xml'', ''https://a.com/s1.xml'', ''https://a.com/s2.xml''])"
  by code_simp

text \<open>
  C6. When the base URL parses, \<open>discoverSitemapUrls\<close> returns, for every \<open>fetchText\<close>
  (every sequence of fetch outcomes): the loop is defined by well-founded recursion on
  the number of successes left and the queue length. The returned list of fetched
  sitemaps is duplicate-free with at most 20 entries; the kept fetches of the log are
  exactly \<open>foundSitemaps\<close>, at most 20; and no fetch follows a prefix of the log that
  holds 20 kept fetches.
\<close>

theorem discoverSitemapUrls_stops_at_20:
  assumes "parseURL baseUrl = Some base"
  shows "\<exists>pageUrls foundSitemaps fetchLog.
           discoverRun fetchText parseSitemapXml base extraSitemaps
             = (pageUrls, foundSitemaps, fetchLog)
         \<and> discoverSitemapUrls parseURL fetchText parseSitemapXml baseUrl extraSitemaps
             = Inr (arrayFromSet pageUrls, arrayFromSet foundSitemaps)
         \<and> map fst (filter snd fetchLog) = foundSitemaps
         \<and> length (arrayFromSet foundSitemaps) \<le> 20
         \<and> distinct (arrayFromSet foundSitemaps)
         \<and> length (filter snd fetchLog) \<le> 20
         \<and> (\<forall>pre post. fetchLog = pre @ post \<and> 20 \<le> length (filter snd pre) \<longrightarrow> post = [])"
proof -
  obtain pageUrls foundSitemaps fetchLog where
    run: "discoverRun fetchText parseSitemapXml base extraSitemaps
            = (pageUrls, foundSitemaps, fetchLog)"
    by (cases "discoverRun fetchText parseSitemapXml base extraSitemaps")
  have ok: "log_ok foundSitemaps fetchLog"
    using run discoverLoop_log_ok [OF log_ok_init] by (simp add: discoverRun_def Let_def)
  have m: "map fst (filter snd fetchLog) = foundSitemaps"
    and l: "length foundSitemaps \<le> 20"
    and t: "\<forall>pre post. fetchLog = pre @ post \<and> 20 \<le> length (filter snd pre) \<longrightarrow> post = []"
    using ok unfolding log_ok_def maxSitemapsToFetch_def by blast+
  have "length (filter snd fetchLog) = length foundSitemaps"
    using m by (metis length_map)
  then have l2: "length (filter snd fetchLog) \<le> 20" using l by simp
  have l3: "length (arrayFromSet foundSitemaps) \<le> 20"
    using arrayFromSet_length [of foundSitemaps] l by simp
  have r: "discoverSitemapUrls parseURL fetchText parseSitemapXml baseUrl extraSitemaps
             = Inr (arrayFromSet pageUrls, arrayFromSet foundSitemaps)"
    using assms run by (simp add: discoverSitemapUrls_def)
  show ?thesis using run r m l3 arrayFromSet_distinct l2 t by blast
qed

theorem discoverSitemapUrls_stops_at_20_witness:
  "plainParseURL ''https://a.com/'' \<noteq> None
   \<and> (\<exists>pageUrls foundSitemaps.
         discoverSitemapUrls plainParseURL endlessFetchText endlessParseSitemapXml
           ''https://a.com/'' [] = Inr (pageUrls, foundSitemaps)
       \<and> length foundSitemaps = 20 \<and> distinct foundSitemaps)
   \<and> discoverSitemapUrls plainParseURL exampleFetchText exampleParseSitemapXml ''https://a.com/''
        [''https://a.com/sitemap.xml'', ''https://a.com/missing.xml'']
      = Inr ([''https://a.com/lp'', ''https://a.com/offer''],
             [''https://a.com/sitemap.xml'', ''https://a.com/s1.xml'', ''https://a.com/s2.xml''])"
proof -
  obtain pageUrls foundSitemaps where
    r: "discoverSitemapUrls plainParseURL endlessFetchText endlessParseSitemapXml
           ''https://a.com/'' [] = Inr (arrayFromSet pageUrls, arrayFromSet foundSitemaps)"
    and d: "distinct (arrayFromSet foundSitemaps)"
    using discoverSitemapUrls_stops_at_20 [of plainParseURL "''https://a.com/''" _
        endlessFetchText endlessParseSitemapXml "[]", OF plain_a_root]
    by blast
  have "length (arrayFromSet foundSitemaps) = 20"
    using endless_found_count unfolding r by simp
  then show ?thesis using r d example_discover plain_a_root by auto
qed

end
